theory Spec2Isabelle
  imports Main "HOL-Library.Multiset"
begin

section \<open>Values and records\<close>

text \<open>
  The field values of a vendor record are JavaScript primitives. Numbers are modelled
  exactly on the integers, together with \<open>NaN\<close> and the two infinities; fractions and
  rounding are outside the model (the sorters of this file only use the sign of a
  difference, and the store only compares numbers with \<open>===\<close>).
\<close>

datatype jsnum = Num int | NaN | PosInf | NegInf

datatype jsval = JUndefined | JNull | JBool bool | JNumber jsnum | JString string

text \<open>\<open>a === b\<close> on primitives: equal values of one type, and \<open>NaN\<close> differs from itself.\<close>

fun strict_eq :: "jsval \<Rightarrow> jsval \<Rightarrow> bool" where
  "strict_eq (JNumber NaN) b = False"
| "strict_eq a (JNumber NaN) = False"
| "strict_eq a b = (a = b)"

text \<open>Truthiness, as \<open>if (v)\<close> and \<open>v || d\<close> test it.\<close>

fun truthy :: "jsval \<Rightarrow> bool" where
  "truthy JUndefined = False"
| "truthy JNull = False"
| "truthy (JBool b) = b"
| "truthy (JNumber (Num n)) = (n \<noteq> 0)"
| "truthy (JNumber NaN) = False"
| "truthy (JNumber PosInf) = True"
| "truthy (JNumber NegInf) = True"
| "truthy (JString s) = (s \<noteq> [])"

text \<open>
  A vendor is a plain object: its own properties in insertion order, each field name
  once. \<open>v[column]\<close> of a missing field is \<open>undefined\<close>.
\<close>

type_synonym vendor = "(string \<times> jsval) list"

definition field :: "vendor \<Rightarrow> string \<Rightarrow> jsval" where
  "field v column = (case map_of v column of None \<Rightarrow> JUndefined | Some x \<Rightarrow> x)"

text \<open>
  Writing one key of an insertion-ordered table (a property of an object, an entry of a
  \<open>Map\<close>): in place when the key exists, appended otherwise.
\<close>

fun upsert :: "'k \<Rightarrow> 'v \<Rightarrow> ('k \<times> 'v) list \<Rightarrow> ('k \<times> 'v) list" where
  "upsert k x [] = [(k, x)]"
| "upsert k x ((k', y) # v) = (if k = k' then (k, x) # v else (k', y) # upsert k x v)"

text \<open>The object literal \<open>{ ...a, ...b }\<close>: the fields of \<open>a\<close>, then those of \<open>b\<close> written over them.\<close>

definition spread :: "vendor \<Rightarrow> vendor \<Rightarrow> vendor" where
  "spread a b = fold (\<lambda>(k, x). upsert k x) b a"

section \<open>Observers\<close>

text \<open>
  What a notification carries. An observer is a callback of the page; the model keeps of it
  whether it returns (\<open>None\<close>) or throws (\<open>Some\<close> of the error) on an event, and an
  identity, since the subscribers are a \<open>Set\<close>. Observers do not call back into the store.
\<close>

datatype payload =
    Vendor vendor
  | Vendors "vendor list"
  | ViewData "vendor list"
  | ViewColumns "string list"
  | ViewFilters "(string \<times> jsval) list"
  | ViewSort string string

type_synonym observer = "string \<Rightarrow> payload \<Rightarrow> string option"

type_synonym call = "nat \<times> string \<times> payload"

text \<open>How a call ends: it returns a value, or an exception unwinds out of it.\<close>

datatype 'a completion = Normal 'a | Throw string

definition subscribe :: "nat \<times> observer \<Rightarrow> (nat \<times> observer) list \<Rightarrow> (nat \<times> observer) list" where
  "subscribe ob obs = (if fst ob \<in> fst ` set obs then obs else obs @ [ob])"

definition unsubscribe :: "nat \<Rightarrow> (nat \<times> observer) list \<Rightarrow> (nat \<times> observer) list" where
  "unsubscribe i obs = filter (\<lambda>ob. fst ob \<noteq> i) obs"

text \<open>
  \<open>VendorAppState.notify\<close>: every observer is called inside \<open>try\<close>; a thrown error goes to
  \<open>console.error\<close> and the loop goes on. The result is the calls made, the errors logged
  and the completion of \<open>notify\<close> itself.
\<close>

fun notify :: "(nat \<times> observer) list \<Rightarrow> string \<Rightarrow> payload \<Rightarrow> call list \<times> string list \<times> unit completion" where
  "notify [] event d = ([], [], Normal ())"
| "notify ((i, f) # obs) event d =
     (case f event d of
        None \<Rightarrow> (case notify obs event d of (cs, lg, c) \<Rightarrow> ((i, event, d) # cs, lg, c))
      | Some err \<Rightarrow> (case notify obs event d of (cs, lg, c) \<Rightarrow> ((i, event, d) # cs, err # lg, c)))"

text \<open>
  \<open>VendorDataStore.notifyObservers\<close>: a bare \<open>forEach\<close>. The first observer that throws
  ends the loop, and the exception leaves \<open>notifyObservers\<close>.
\<close>

fun notifyObservers :: "(nat \<times> observer) list \<Rightarrow> string \<Rightarrow> payload \<Rightarrow> call list \<times> unit completion" where
  "notifyObservers [] event d = ([], Normal ())"
| "notifyObservers ((i, f) # obs) event d =
     (case f event d of
        None \<Rightarrow> (case notifyObservers obs event d of (cs, c) \<Rightarrow> ((i, event, d) # cs, c))
      | Some err \<Rightarrow> ([(i, event, d)], Throw err))"

section \<open>VendorDataStore\<close>

record store =
  data :: "vendor list"
  columns :: "string list"
  primaryKey :: string
  observers :: "(nat \<times> observer) list"

definition new_store :: store where
  "new_store = \<lparr>data = [], columns = [], primaryKey = ''id'', observers = []\<rparr>"

text \<open>\<open>Array.prototype.findIndex\<close>, with \<open>None\<close> for \<open>-1\<close>.\<close>

fun findIndex :: "('a \<Rightarrow> bool) \<Rightarrow> 'a list \<Rightarrow> nat option" where
  "findIndex p [] = None"
| "findIndex p (x # xs) = (if p x then Some 0 else map_option Suc (findIndex p xs))"

definition has_key :: "store \<Rightarrow> jsval \<Rightarrow> vendor \<Rightarrow> bool" where
  "has_key s ident v = strict_eq (field v (primaryKey s)) ident"

text \<open>
  Every operation returns the store after it, the observer calls it made and its
  completion. The mutation comes before the notification, so it stays when an observer
  throws.
\<close>

definition after_notify :: "'a \<Rightarrow> call list \<times> unit completion \<Rightarrow> call list \<times> 'a completion" where
  "after_notify r n = (case n of (cs, Normal u) \<Rightarrow> (cs, Normal r) | (cs, Throw e) \<Rightarrow> (cs, Throw e))"

definition setData :: "vendor list \<Rightarrow> store \<Rightarrow> store \<times> call list \<times> unit completion" where
  "setData d s =
     (let s' = s\<lparr>data := d\<rparr>
      in (s', notifyObservers (observers s') ''dataLoaded'' (Vendors (data s'))))"

definition addVendor :: "vendor \<Rightarrow> store \<Rightarrow> store \<times> call list \<times> vendor completion" where
  "addVendor v s =
     (let s' = s\<lparr>data := data s @ [v]\<rparr>
      in (s', after_notify v (notifyObservers (observers s') ''vendorAdded'' (Vendor v))))"

definition updateVendor :: "jsval \<Rightarrow> vendor \<Rightarrow> store \<Rightarrow> store \<times> call list \<times> vendor option completion" where
  "updateVendor ident updates s =
     (case findIndex (has_key s ident) (data s) of
        Some index \<Rightarrow>
          (let merged = spread (data s ! index) updates;
               s' = s\<lparr>data := (data s)[index := merged]\<rparr>
           in (s', after_notify (Some merged)
                     (notifyObservers (observers s') ''vendorUpdated'' (Vendor merged))))
      | None \<Rightarrow> (s, [], Normal None))"

definition deleteVendor :: "jsval \<Rightarrow> store \<Rightarrow> store \<times> call list \<times> vendor option completion" where
  "deleteVendor ident s =
     (case findIndex (has_key s ident) (data s) of
        Some index \<Rightarrow>
          (let deleted = data s ! index;
               s' = s\<lparr>data := take index (data s) @ drop (Suc index) (data s)\<rparr>
           in (s', after_notify (Some deleted)
                     (notifyObservers (observers s') ''vendorDeleted'' (Vendor deleted))))
      | None \<Rightarrow> (s, [], Normal None))"

definition getVendor :: "jsval \<Rightarrow> store \<Rightarrow> vendor option" where
  "getVendor ident s = find (has_key s ident) (data s)"

definition getAllVendors :: "store \<Rightarrow> vendor list" where
  "getAllVendors s = data s"

section \<open>Commands and their history\<close>

text \<open>
  A command object with the state it captures: \<open>previousState\<close> of an update and
  \<open>deletedVendor\<close> of a delete start as \<open>null\<close> (\<open>None\<close>). All commands act on the one
  store passed along. \<open>Command\<close> is the base class, whose two methods do nothing.
\<close>

datatype command =
    Command
  | AddVendorCommand vendor
  | UpdateVendorCommand jsval vendor "vendor option"
  | DeleteVendorCommand jsval "vendor option"

definition discard :: "'a completion \<Rightarrow> unit completion" where
  "discard c = (case c of Normal x \<Rightarrow> Normal () | Throw e \<Rightarrow> Throw e)"

fun execute :: "command \<Rightarrow> store \<Rightarrow> command \<times> store \<times> call list \<times> unit completion" where
  "execute Command s = (Command, s, [], Normal ())"
| "execute (AddVendorCommand v) s =
     (case addVendor v s of (s', cs, c) \<Rightarrow> (AddVendorCommand v, s', cs, discard c))"
| "execute (UpdateVendorCommand ident updates previousState) s =
     (let previousState' = getVendor ident s
      in case updateVendor ident updates s of
           (s', cs, c) \<Rightarrow> (UpdateVendorCommand ident updates previousState', s', cs, discard c))"
| "execute (DeleteVendorCommand ident deletedVendor) s =
     (case deleteVendor ident s of
        (s', cs, Normal d) \<Rightarrow> (DeleteVendorCommand ident d, s', cs, Normal ())
      | (s', cs, Throw e) \<Rightarrow> (DeleteVendorCommand ident deletedVendor, s', cs, Throw e))"

fun undo :: "command \<Rightarrow> store \<Rightarrow> store \<times> call list \<times> unit completion" where
  "undo Command s = (s, [], Normal ())"
| "undo (AddVendorCommand v) s =
     (case deleteVendor (field v (primaryKey s)) s of (s', cs, c) \<Rightarrow> (s', cs, discard c))"
| "undo (UpdateVendorCommand ident updates previousState) s =
     (case previousState of
        Some p \<Rightarrow> (case updateVendor ident p s of (s', cs, c) \<Rightarrow> (s', cs, discard c))
      | None \<Rightarrow> (s, [], Normal ()))"
| "undo (DeleteVendorCommand ident deletedVendor) s =
     (case deletedVendor of
        Some d \<Rightarrow> (case addVendor d s of (s', cs, c) \<Rightarrow> (s', cs, discard c))
      | None \<Rightarrow> (s, [], Normal ()))"

text \<open>The two stacks are arrays used with \<open>push\<close> and \<open>pop\<close>: the top is the last element.\<close>

record history =
  undoStack :: "command list"
  redoStack :: "command list"

definition new_history :: history where
  "new_history = \<lparr>undoStack = [], redoStack = []\<rparr>"

definition executeCommand :: "command \<Rightarrow> history \<times> store \<Rightarrow> (history \<times> store) \<times> call list \<times> unit completion" where
  "executeCommand c hs =
     (case hs of (h, s) \<Rightarrow>
        (case execute c s of
           (c', s', cs, Normal u) \<Rightarrow>
             ((h\<lparr>undoStack := undoStack h @ [c'], redoStack := []\<rparr>, s'), cs, Normal ())
         | (c', s', cs, Throw e) \<Rightarrow> ((h, s'), cs, Throw e)))"

definition history_undo :: "history \<times> store \<Rightarrow> (history \<times> store) \<times> call list \<times> unit completion" where
  "history_undo hs =
     (case hs of (h, s) \<Rightarrow>
        (if undoStack h = [] then ((h, s), [], Normal ())
         else
           (let c = last (undoStack h);
                h1 = h\<lparr>undoStack := butlast (undoStack h)\<rparr>
            in case undo c s of
                 (s', cs, Normal u) \<Rightarrow> ((h1\<lparr>redoStack := redoStack h1 @ [c]\<rparr>, s'), cs, Normal ())
               | (s', cs, Throw e) \<Rightarrow> ((h1, s'), cs, Throw e))))"

definition redo :: "history \<times> store \<Rightarrow> (history \<times> store) \<times> call list \<times> unit completion" where
  "redo hs =
     (case hs of (h, s) \<Rightarrow>
        (if redoStack h = [] then ((h, s), [], Normal ())
         else
           (let c = last (redoStack h);
                h1 = h\<lparr>redoStack := butlast (redoStack h)\<rparr>
            in case execute c s of
                 (c', s', cs, Normal u) \<Rightarrow> ((h1\<lparr>undoStack := undoStack h1 @ [c']\<rparr>, s'), cs, Normal ())
               | (c', s', cs, Throw e) \<Rightarrow> ((h1, s'), cs, Throw e))))"

definition canUndo :: "history \<Rightarrow> bool" where
  "canUndo h = (length (undoStack h) > 0)"

definition canRedo :: "history \<Rightarrow> bool" where
  "canRedo h = (length (redoStack h) > 0)"

section \<open>Strings\<close>

text \<open>
  \<open>String(v)\<close> of a primitive. Integers print in decimal (JavaScript does so below
  \<open>10^21\<close>). \<open>toLowerCase\<close> is modelled on the ASCII letters.
\<close>

fun digits :: "nat \<Rightarrow> string" where
  "digits n = (if n < 10 then [char_of (48 + n)] else digits (n div 10) @ [char_of (48 + n mod 10)])"

declare digits.simps [simp del]

fun to_string :: "jsval \<Rightarrow> string" where
  "to_string JUndefined = ''undefined''"
| "to_string JNull = ''null''"
| "to_string (JBool b) = (if b then ''true'' else ''false'')"
| "to_string (JNumber (Num n)) = (if n < 0 then CHR ''-'' # digits (nat (- n)) else digits (nat n))"
| "to_string (JNumber NaN) = ''NaN''"
| "to_string (JNumber PosInf) = ''Infinity''"
| "to_string (JNumber NegInf) = ''-Infinity''"
| "to_string (JString s) = s"

definition lower_char :: "char \<Rightarrow> char" where
  "lower_char c = (let n = (of_char c :: nat) in if 65 \<le> n \<and> n \<le> 90 then char_of (n + 32) else c)"

definition toLowerCase :: "string \<Rightarrow> string" where
  "toLowerCase s = map lower_char s"

fun startsWith :: "string \<Rightarrow> string \<Rightarrow> bool" where
  "startsWith s [] = True"
| "startsWith [] (p # ps) = False"
| "startsWith (c # cs) (p # ps) = (c = p \<and> startsWith cs ps)"

fun str_includes :: "string \<Rightarrow> string \<Rightarrow> bool" where
  "str_includes [] p = (p = [])"
| "str_includes (c # cs) p = (startsWith (c # cs) p \<or> str_includes cs p)"

section \<open>Search strategies\<close>

text \<open>
  A search strategy is an object with one method, \<open>match(value, searchTerm)\<close>; the model
  takes the method for the object. The regular expression engine is the host's:
  \<open>rx term\<close> stands for \<open>new RegExp(term, 'i')\<close>, \<open>None\<close> when the constructor throws and
  the \<open>test\<close> method of the expression otherwise.
\<close>

type_synonym search_strategy = "jsval \<Rightarrow> jsval \<Rightarrow> bool"

definition ExactSearchStrategy :: search_strategy where
  "ExactSearchStrategy v searchTerm = (to_string v = to_string searchTerm)"

definition PartialSearchStrategy :: search_strategy where
  "PartialSearchStrategy v searchTerm =
     str_includes (toLowerCase (to_string v)) (toLowerCase (to_string searchTerm))"

definition CaseInsensitiveSearchStrategy :: search_strategy where
  "CaseInsensitiveSearchStrategy v searchTerm =
     (toLowerCase (to_string v) = toLowerCase (to_string searchTerm))"

definition RegexSearchStrategy :: "(jsval \<Rightarrow> (string \<Rightarrow> bool) option) \<Rightarrow> search_strategy" where
  "RegexSearchStrategy rx v searchTerm =
     (case rx searchTerm of Some test \<Rightarrow> test (to_string v) | None \<Rightarrow> False)"

section \<open>VendorAppState\<close>

type_synonym sort_strategy = "vendor list \<Rightarrow> string \<Rightarrow> string \<Rightarrow> vendor list"

record app_state =
  view_data :: "vendor list"
  filteredData :: "vendor list"
  view_columns :: "string list"
  view_primaryKey :: string
  sortColumn :: "string option"
  sortDirection :: string
  searchFilters :: "(string \<times> jsval) list"
  view_observers :: "(nat \<times> observer) list"
  searchStrategy :: search_strategy
  sortStrategy :: sort_strategy

text \<open>The constructor leaves the two strategies to be given: its defaults are the partial
  matcher and the alphabetic sorter.\<close>

definition new_app_state :: "search_strategy \<Rightarrow> sort_strategy \<Rightarrow> app_state" where
  "new_app_state m srt =
     \<lparr>view_data = [], filteredData = [], view_columns = [], view_primaryKey = ''id'',
      sortColumn = None, sortDirection = ''asc'', searchFilters = [], view_observers = [],
      searchStrategy = m, sortStrategy = srt\<rparr>"

text \<open>The body of the filter callback: the loop over the entries of \<open>searchFilters\<close> returns
  \<open>false\<close> at the first term that does not match.\<close>

fun passes :: "search_strategy \<Rightarrow> (string \<times> jsval) list \<Rightarrow> vendor \<Rightarrow> bool" where
  "passes m [] item = True"
| "passes m ((column, searchTerm) # fs) item =
     (if \<not> m (field item column) searchTerm then False else passes m fs item)"

text \<open>\<open>if (this.sortColumn)\<close>: \<open>null\<close> and the empty string are falsy.\<close>

definition column_set :: "string option \<Rightarrow> bool" where
  "column_set c = (case c of None \<Rightarrow> False | Some name \<Rightarrow> name \<noteq> [])"

definition applyFiltersAndSort :: "app_state \<Rightarrow> app_state" where
  "applyFiltersAndSort s =
     (let filtered = filter (passes (searchStrategy s) (searchFilters s)) (view_data s);
          filtered' = (if column_set (sortColumn s)
                       then sortStrategy s filtered (the (sortColumn s)) (sortDirection s)
                       else filtered)
      in s\<lparr>filteredData := filtered'\<rparr>)"

definition view_setData :: "vendor list \<Rightarrow> app_state \<Rightarrow> app_state \<times> call list \<times> string list \<times> unit completion" where
  "view_setData d s =
     (let s1 = applyFiltersAndSort (s\<lparr>view_data := d\<rparr>)
      in (s1, notify (view_observers s1) ''dataChanged'' (ViewData (filteredData s1))))"

definition setColumns :: "string list \<Rightarrow> app_state \<Rightarrow> app_state \<times> call list \<times> string list \<times> unit completion" where
  "setColumns cols s =
     (let s1 = s\<lparr>view_columns := cols\<rparr>
      in (s1, notify (view_observers s1) ''columnsChanged'' (ViewColumns cols)))"

definition setSearchFilter :: "string \<Rightarrow> jsval \<Rightarrow> app_state \<Rightarrow> app_state \<times> call list \<times> string list \<times> unit completion" where
  "setSearchFilter column v s =
     (let s1 = (if truthy v then s\<lparr>searchFilters := upsert column v (searchFilters s)\<rparr>
                else s\<lparr>searchFilters := filter (\<lambda>e. fst e \<noteq> column) (searchFilters s)\<rparr>);
          s2 = applyFiltersAndSort s1
      in (s2, notify (view_observers s2) ''filtersChanged'' (ViewFilters (searchFilters s2))))"

definition setSortColumn :: "string \<Rightarrow> app_state \<Rightarrow> app_state \<times> call list \<times> string list \<times> unit completion" where
  "setSortColumn column s =
     (let s1 = (if sortColumn s = Some column
                then s\<lparr>sortDirection := (if sortDirection s = ''asc'' then ''desc'' else ''asc'')\<rparr>
                else s\<lparr>sortColumn := Some column, sortDirection := ''asc''\<rparr>);
          s2 = applyFiltersAndSort s1
      in (s2, notify (view_observers s2) ''sortChanged'' (ViewSort column (sortDirection s2))))"

definition getFilteredData :: "app_state \<Rightarrow> vendor list" where
  "getFilteredData s = filteredData s"

definition getTotalCount :: "app_state \<Rightarrow> nat" where
  "getTotalCount s = length (view_data s)"

definition getFilteredCount :: "app_state \<Rightarrow> nat" where
  "getFilteredCount s = length (filteredData s)"

section \<open>Sort strategies\<close>

text \<open>
  The number operations the comparators use: \<open>a - b\<close>, \<open>-a\<close> and \<open>Number(v)\<close>. The conversion
  of a string to a number is the host's and is a parameter, \<open>str_num\<close>.
\<close>

fun js_sub :: "jsnum \<Rightarrow> jsnum \<Rightarrow> jsnum" where
  "js_sub (Num a) (Num b) = Num (a - b)"
| "js_sub NaN b = NaN"
| "js_sub a NaN = NaN"
| "js_sub PosInf PosInf = NaN"
| "js_sub NegInf NegInf = NaN"
| "js_sub PosInf b = PosInf"
| "js_sub NegInf b = NegInf"
| "js_sub (Num a) PosInf = NegInf"
| "js_sub (Num a) NegInf = PosInf"

fun js_neg :: "jsnum \<Rightarrow> jsnum" where
  "js_neg (Num a) = Num (- a)"
| "js_neg NaN = NaN"
| "js_neg PosInf = NegInf"
| "js_neg NegInf = PosInf"

fun to_number :: "(string \<Rightarrow> jsnum) \<Rightarrow> jsval \<Rightarrow> jsnum" where
  "to_number str_num JUndefined = NaN"
| "to_number str_num JNull = Num 0"
| "to_number str_num (JBool b) = Num (if b then 1 else 0)"
| "to_number str_num (JNumber n) = n"
| "to_number str_num (JString s) = str_num s"

text \<open>\<open>a || b\<close>.\<close>

definition or_else :: "jsval \<Rightarrow> jsval \<Rightarrow> jsval" where
  "or_else a b = (if truthy a then a else b)"

text \<open>
  \<open>new Date(v).getTime()\<close> of a primitive: a string goes through the host's date parser
  (the parameter \<open>parse\<close>, \<open>None\<close> for a string it does not understand), anything else
  through \<open>Number\<close>; a time value is an integer of at most \<open>8.64e15\<close> milliseconds either
  side of the epoch, and everything else is the invalid date, whose time is \<open>NaN\<close>.
\<close>

fun time_clip :: "jsnum \<Rightarrow> jsnum" where
  "time_clip (Num n) = (if \<bar>n\<bar> \<le> 8640000000000000 then Num n else NaN)"
| "time_clip NaN = NaN"
| "time_clip PosInf = NaN"
| "time_clip NegInf = NaN"

fun getTime :: "(string \<Rightarrow> int option) \<Rightarrow> jsval \<Rightarrow> jsnum" where
  "getTime parse (JString s) = (case parse s of None \<Rightarrow> NaN | Some t \<Rightarrow> Num t)"
| "getTime parse v = time_clip (to_number (\<lambda>s. NaN) v)"

text \<open>
  \<open>[...rows].sort(comparefn)\<close> is the host's \<open>Array.prototype.sort\<close> on a fresh copy; the
  sorters take it as the parameter \<open>srt\<close>. The host reads the comparator through
  \<open>SortCompare\<close>, which turns a \<open>NaN\<close> result into \<open>+0\<close>; only the sign of the result counts.
\<close>

type_synonym 'a comparator = "'a \<Rightarrow> 'a \<Rightarrow> jsnum"

type_synonym 'a array_sort = "'a comparator \<Rightarrow> 'a list \<Rightarrow> 'a list"

fun sign_of :: "jsnum \<Rightarrow> int" where
  "sign_of (Num n) = sgn n"
| "sign_of NaN = 0"
| "sign_of PosInf = 1"
| "sign_of NegInf = - 1"

definition sort_compare :: "'a comparator \<Rightarrow> 'a \<Rightarrow> 'a \<Rightarrow> int" where
  "sort_compare comparefn x y = sign_of (comparefn x y)"

text \<open>\<open>direction === 'asc' ? comparison : -comparison\<close>.\<close>

definition directed :: "string \<Rightarrow> jsnum \<Rightarrow> jsnum" where
  "directed direction comparison = (if direction = ''asc'' then comparison else js_neg comparison)"

definition alphabetic_key :: "string \<Rightarrow> vendor \<Rightarrow> string" where
  "alphabetic_key column a = toLowerCase (to_string (or_else (field a column) (JString [])))"

definition numeric_key :: "(string \<Rightarrow> jsnum) \<Rightarrow> string \<Rightarrow> vendor \<Rightarrow> jsnum" where
  "numeric_key str_num column a =
     (let n = to_number str_num (field a column) in if truthy (JNumber n) then n else Num 0)"

definition date_key :: "(string \<Rightarrow> int option) \<Rightarrow> string \<Rightarrow> vendor \<Rightarrow> jsnum" where
  "date_key parse column a = getTime parse (or_else (field a column) (JNumber (Num 0)))"

text \<open>The three comparators, as the arrow functions passed to \<open>sort\<close>. \<open>localeCompare\<close> is
  the host's collation and a parameter.\<close>

definition alphabetic_compare :: "(string \<Rightarrow> string \<Rightarrow> int) \<Rightarrow> string \<Rightarrow> string \<Rightarrow> vendor comparator" where
  "alphabetic_compare localeCompare column direction a b =
     (let aVal = alphabetic_key column a;
          bVal = alphabetic_key column b;
          comparison = Num (localeCompare aVal bVal)
      in directed direction comparison)"

definition numeric_compare :: "(string \<Rightarrow> jsnum) \<Rightarrow> string \<Rightarrow> string \<Rightarrow> vendor comparator" where
  "numeric_compare str_num column direction a b =
     (let aVal = numeric_key str_num column a;
          bVal = numeric_key str_num column b;
          comparison = js_sub aVal bVal
      in directed direction comparison)"

definition date_compare :: "(string \<Rightarrow> int option) \<Rightarrow> string \<Rightarrow> string \<Rightarrow> vendor comparator" where
  "date_compare parse column direction a b =
     (let aVal = date_key parse column a;
          bVal = date_key parse column b;
          comparison = js_sub aVal bVal
      in directed direction comparison)"

definition AlphabeticSortStrategy :: "vendor array_sort \<Rightarrow> (string \<Rightarrow> string \<Rightarrow> int) \<Rightarrow> sort_strategy" where
  "AlphabeticSortStrategy srt localeCompare rows column direction =
     srt (alphabetic_compare localeCompare column direction) rows"

definition NumericSortStrategy :: "vendor array_sort \<Rightarrow> (string \<Rightarrow> jsnum) \<Rightarrow> sort_strategy" where
  "NumericSortStrategy srt str_num rows column direction =
     srt (numeric_compare str_num column direction) rows"

definition DateSortStrategy :: "vendor array_sort \<Rightarrow> (string \<Rightarrow> int option) \<Rightarrow> sort_strategy" where
  "DateSortStrategy srt parse rows column direction =
     srt (date_compare parse column direction) rows"

subsection \<open>What the language promises of \<open>sort\<close>\<close>

text \<open>
  ECMAScript fixes the result of \<open>sort\<close> for a consistent comparator: the elements in
  ascending order of the comparator, elements that compare equal in their input order.
  For any other comparator the order is implementation-defined. Consistency is read on
  the results of \<open>SortCompare\<close>, as an engine sees them.
\<close>

definition consistent_on :: "'a comparator \<Rightarrow> 'a set \<Rightarrow> bool" where
  "consistent_on comparefn A =
     ((\<forall>a\<in>A. sort_compare comparefn a a = 0)
    \<and> (\<forall>a\<in>A. \<forall>b\<in>A. sort_compare comparefn a b = 0 \<longrightarrow> sort_compare comparefn b a = 0)
    \<and> (\<forall>a\<in>A. \<forall>b\<in>A. \<forall>c\<in>A. sort_compare comparefn a b = 0 \<and> sort_compare comparefn b c = 0
           \<longrightarrow> sort_compare comparefn a c = 0)
    \<and> (\<forall>a\<in>A. \<forall>b\<in>A. \<forall>c\<in>A. sort_compare comparefn a b < 0 \<and> sort_compare comparefn b c < 0
           \<longrightarrow> sort_compare comparefn a c < 0)
    \<and> (\<forall>a\<in>A. \<forall>b\<in>A. \<forall>c\<in>A. sort_compare comparefn a b > 0 \<and> sort_compare comparefn b c > 0
           \<longrightarrow> sort_compare comparefn a c > 0))"

definition ascending :: "'a comparator \<Rightarrow> 'a list \<Rightarrow> bool" where
  "ascending comparefn ys = sorted_wrt (\<lambda>a b. sort_compare comparefn a b \<le> 0) ys"

definition ties_kept :: "'a comparator \<Rightarrow> 'a list \<Rightarrow> 'a list \<Rightarrow> bool" where
  "ties_kept comparefn xs ys =
     (\<forall>a\<in>set xs. filter (\<lambda>b. sort_compare comparefn a b = 0) ys
                 = filter (\<lambda>b. sort_compare comparefn a b = 0) xs)"

definition conforming :: "'a array_sort \<Rightarrow> bool" where
  "conforming srt =
     (\<forall>comparefn xs.
        mset (srt comparefn xs) = mset xs
      \<and> (consistent_on comparefn (set xs)
           \<longrightarrow> ascending comparefn (srt comparefn xs) \<and> ties_kept comparefn xs (srt comparefn xs)))"

text \<open>A sort of this kind, by insertion: each element goes behind everything that is not
  greater than it.\<close>

fun insert_stable :: "'a comparator \<Rightarrow> 'a \<Rightarrow> 'a list \<Rightarrow> 'a list" where
  "insert_stable comparefn x [] = [x]"
| "insert_stable comparefn x (y # ys) =
     (if sort_compare comparefn x y < 0 then x # y # ys else y # insert_stable comparefn x ys)"

definition stable_sort :: "'a array_sort" where
  "stable_sort comparefn xs = fold (insert_stable comparefn) xs []"

text \<open>A collation to run examples with: strings compared by their character codes.\<close>

fun code_compare :: "string \<Rightarrow> string \<Rightarrow> int" where
  "code_compare [] [] = 0"
| "code_compare [] (b # bs) = - 1"
| "code_compare (a # as) [] = 1"
| "code_compare (a # as) (b # bs) =
     (if (of_char a :: nat) < of_char b then - 1
      else if (of_char b :: nat) < of_char a then 1
      else code_compare as bs)"

subsection \<open>Another conforming sort: one run, then binary insertion\<close>

text \<open>
  What a TimSort does on a short array, V8 (the engine of Chrome and Node.js) on fewer
  than 64 elements: \<open>CountAndMakeRun\<close> takes the longest run at the front, ascending or
  strictly descending, and reverses a descending one; \<open>BinaryInsertionSort\<close> then puts each
  later element in at the place a binary search gives.
\<close>

fun run_more :: "'a comparator \<Rightarrow> bool \<Rightarrow> 'a \<Rightarrow> 'a list \<Rightarrow> nat" where
  "run_more comparefn isDescending previousElement [] = 0"
| "run_more comparefn isDescending previousElement (currentElement # rest) =
     (let order = sort_compare comparefn currentElement previousElement
      in if (if isDescending then order \<ge> 0 else order < 0) then 0
         else Suc (run_more comparefn isDescending currentElement rest))"

definition count_and_make_run :: "'a comparator \<Rightarrow> 'a list \<Rightarrow> 'a list \<times> 'a list" where
  "count_and_make_run comparefn work =
     (case work of
        elementHigh # elementLow # rest \<Rightarrow>
          (let isDescending = sort_compare comparefn elementLow elementHigh < 0;
               runLength = 2 + run_more comparefn isDescending elementLow rest
           in (if isDescending then rev (take runLength work) else take runLength work,
               drop runLength work))
      | _ \<Rightarrow> (work, []))"

function binary_search :: "'a comparator \<Rightarrow> 'a \<Rightarrow> 'a list \<Rightarrow> nat \<Rightarrow> nat \<Rightarrow> nat" where
  "binary_search comparefn pivot work left right =
     (if left < right then
        (let mid = left + (right - left) div 2;
             order = sort_compare comparefn pivot (work ! mid)
         in if order < 0 then binary_search comparefn pivot work left mid
            else binary_search comparefn pivot work (mid + 1) right)
      else left)"
  by pat_completeness auto
termination
  by (relation "measure (\<lambda>(comparefn, pivot, work, left, right). right - left)") auto

declare binary_search.simps [simp del]

definition binary_insert :: "'a comparator \<Rightarrow> 'a \<Rightarrow> 'a list \<Rightarrow> 'a list" where
  "binary_insert comparefn pivot work =
     (let left = binary_search comparefn pivot work 0 (length work)
      in take left work @ pivot # drop left work)"

text \<open>\<open>binary_search\<close> is the inner loop of the insertion, \<open>binary_insert\<close> its body for one
  pivot.\<close>

definition run_insertion_sort :: "'a array_sort" where
  "run_insertion_sort comparefn xs =
     (case count_and_make_run comparefn xs of
        (sorted_run, rest) \<Rightarrow> fold (binary_insert comparefn) rest sorted_run)"

section \<open>Auxiliary notions for the properties\<close>

text \<open>\<open>c.execute(); c.undo();\<close> as one sequence: the store after it and how it completed.
  When \<open>execute\<close> throws, \<open>undo\<close> is not reached.\<close>

definition round_trip :: "command \<Rightarrow> store \<Rightarrow> store \<times> unit completion" where
  "round_trip c s =
     (case execute c s of
        (c', s', cs, Normal u) \<Rightarrow> (case undo c' s' of (s'', cs', r) \<Rightarrow> (s'', r))
      | (c', s', cs, Throw e) \<Rightarrow> (s', Throw e))"

text \<open>Two stores are equal by identity-key set and field values: the same keys, and the
  same records, a record being its set of fields.\<close>

definition store_equal :: "store \<Rightarrow> store \<Rightarrow> bool" where
  "store_equal s t =
     (set (map (\<lambda>v. field v (primaryKey s)) (data s)) = set (map (\<lambda>v. field v (primaryKey t)) (data t))
      \<and> set (map set (data s)) = set (map set (data t)))"

text \<open>
  The commands whose \<open>undo\<close> reverses their \<open>execute\<close>: an add of a record whose key is not
  \<open>NaN\<close> and matches no record of the store; an update that names only fields the record
  has and leaves its key as it is (or whose key is not in the store); any delete.
\<close>

fun reversible :: "store \<Rightarrow> command \<Rightarrow> bool" where
  "reversible s Command = True"
| "reversible s (AddVendorCommand v) =
     (field v (primaryKey s) \<noteq> JNumber NaN
      \<and> list_all (\<lambda>x. \<not> has_key s (field v (primaryKey s)) x) (data s))"
| "reversible s (UpdateVendorCommand ident updates previousState) =
     (case getVendor ident s of
        None \<Rightarrow> True
      | Some old \<Rightarrow> distinct (map fst old) \<and> list_all (\<lambda>e. fst e \<in> fst ` set old) updates
                   \<and> field (spread old updates) (primaryKey s) = field old (primaryKey s))"
| "reversible s (DeleteVendorCommand ident deletedVendor) = True"

text \<open>Sequences of store operations, and the guard under which one of them keeps the
  identity keys of the store distinct.\<close>

definition key_of :: "store \<Rightarrow> vendor \<Rightarrow> jsval" where
  "key_of s v = field v (primaryKey s)"

definition keys_unique :: "store \<Rightarrow> bool" where
  "keys_unique s = distinct (map (key_of s) (data s))"

datatype store_op =
    SetData "vendor list"
  | AddVendor vendor
  | UpdateVendor jsval vendor
  | DeleteVendor jsval

fun apply_op :: "store_op \<Rightarrow> store \<Rightarrow> store" where
  "apply_op (SetData d) s = fst (setData d s)"
| "apply_op (AddVendor v) s = fst (addVendor v s)"
| "apply_op (UpdateVendor ident updates) s = fst (updateVendor ident updates s)"
| "apply_op (DeleteVendor ident) s = fst (deleteVendor ident s)"

definition run :: "store_op list \<Rightarrow> store \<Rightarrow> store" where
  "run ops s = fold apply_op ops s"

fun keeps_keys :: "store \<Rightarrow> store_op \<Rightarrow> bool" where
  "keeps_keys s (SetData d) = distinct (map (key_of s) d)"
| "keeps_keys s (AddVendor v) = (key_of s v \<notin> set (map (key_of s) (data s)))"
| "keeps_keys s (UpdateVendor ident updates) =
     (case findIndex (has_key s ident) (data s) of
        None \<Rightarrow> True
      | Some index \<Rightarrow>
          (let k = key_of s (spread (data s ! index) updates)
           in k = key_of s (data s ! index) \<or> k \<notin> set (map (key_of s) (data s))))"
| "keeps_keys s (DeleteVendor ident) = True"

fun guarded :: "store_op list \<Rightarrow> store \<Rightarrow> bool" where
  "guarded [] s = True"
| "guarded (op # ops) s = (keeps_keys s op \<and> guarded ops (apply_op op s))"

text \<open>Observers that never throw.\<close>

definition quiet :: "(nat \<times> observer) list \<Rightarrow> bool" where
  "quiet obs = (\<forall>ob\<in>set obs. \<forall>event d. snd ob event d = None)"

section \<open>Example inputs\<close>

definition vendor_1 :: vendor where
  "vendor_1 = [(''id'', JNumber (Num 1)), (''name'', JString ''Charlie''), (''v'', JNumber (Num 30))]"

definition vendor_2 :: vendor where
  "vendor_2 = [(''id'', JNumber (Num 2)), (''name'', JString ''Alice''), (''v'', JNumber (Num 10))]"

definition vendor_3 :: vendor where
  "vendor_3 = [(''id'', JNumber (Num 3)), (''name'', JString ''Bob''), (''v'', JNumber (Num 20))]"

definition store_123 :: store where
  "store_123 = new_store\<lparr>data := [vendor_1, vendor_2, vendor_3]\<rparr>"

definition vendor_4 :: vendor where
  "vendor_4 = [(''id'', JNumber (Num 4)), (''name'', JString ''Dora'')]"

text \<open>A second record with the key of \<open>vendor_1\<close>.\<close>

definition vendor_1_again :: vendor where
  "vendor_1_again = [(''id'', JNumber (Num 1)), (''name'', JString ''Dave'')]"

definition history_1 :: history where
  "history_1 = \<lparr>undoStack = [], redoStack = [DeleteVendorCommand (JNumber (Num 2)) None]\<rparr>"

definition faulty :: observer where
  "faulty event d = Some ''boom''"

definition healthy :: observer where
  "healthy event d = None"

definition item_a1 :: vendor where
  "item_a1 = [(''id'', JNumber (Num 1)), (''category'', JString ''A'')]"

definition item_b :: vendor where
  "item_b = [(''id'', JNumber (Num 2)), (''category'', JString ''B'')]"

definition item_a2 :: vendor where
  "item_a2 = [(''id'', JNumber (Num 3)), (''category'', JString ''A'')]"

text \<open>The view as its constructor leaves it, on the insertion sort and the character
  collation.\<close>

definition default_view :: app_state where
  "default_view = new_app_state PartialSearchStrategy (AlphabeticSortStrategy stable_sort code_compare)"

definition view_123 :: app_state where
  "view_123 = default_view\<lparr>view_data := [vendor_1, vendor_2, vendor_3],
                            filteredData := [vendor_1, vendor_2, vendor_3]\<rparr>"

text \<open>A date parser to run examples with: it knows five dates.\<close>

definition sample_parse :: "string \<Rightarrow> int option" where
  "sample_parse s =
     (if s = ''1969-12-31'' then Some (- 86400000)
      else if s = ''1970-01-02'' then Some 86400000
      else if s = ''1970-01-03'' then Some 172800000
      else if s = ''1970-01-04'' then Some 259200000
      else if s = ''1970-01-06'' then Some 432000000
      else None)"

definition joined_soon :: vendor where
  "joined_soon = [(''id'', JNumber (Num 1)), (''joined'', JString ''soon'')]"

definition joined_1969 :: vendor where
  "joined_1969 = [(''id'', JNumber (Num 2)), (''joined'', JString ''1969-12-31'')]"

definition joined_never :: vendor where
  "joined_never = [(''id'', JNumber (Num 3))]"

definition dated :: "int \<Rightarrow> string \<Rightarrow> vendor" where
  "dated n s = [(''id'', JNumber (Num n)), (''joined'', JString s)]"

definition seven_dated :: "vendor list" where
  "seven_dated =
     [dated 1 ''1970-01-03'', dated 2 ''1970-01-02'', dated 3 ''soon'', dated 4 ''1970-01-06'',
      dated 5 ''soon'', dated 6 ''1970-01-04'', dated 7 ''1970-01-04'']"

text \<open>The store of three with one observer that never throws.\<close>

definition store_watched :: store where
  "store_watched = store_123\<lparr>observers := [(1, healthy)]\<rparr>"

text \<open>An observer that throws on \<open>vendorAdded\<close> and returns on every other event, and the
  store of three with it subscribed.\<close>

definition faulty_on_add :: observer where
  "faulty_on_add event d = (if event = ''vendorAdded'' then Some ''boom'' else None)"

definition store_faulty :: store where
  "store_faulty = store_123\<lparr>observers := [(1, faulty_on_add)]\<rparr>"

section \<open>Array lookups\<close>

lemma findIndex_None: "findIndex p xs = None \<longleftrightarrow> (\<forall>x\<in>set xs. \<not> p x)"
  by (induction xs) auto

lemma findIndex_Some:
  "findIndex p xs = Some i \<Longrightarrow> i < length xs \<and> p (xs ! i) \<and> (\<forall>j<i. \<not> p (xs ! j))"
proof (induction xs arbitrary: i)
  case Nil
  then show ?case by simp
next
  case (Cons x xs)
  show ?case
  proof (cases "p x")
    case True
    with Cons.prems show ?thesis by simp
  next
    case False
    with Cons.prems obtain k where k: "findIndex p xs = Some k" "i = Suc k"
      by auto
    from Cons.IH [OF k(1)] False k(2) show ?thesis
      by (auto simp: less_Suc_eq_0_disj)
  qed
qed

lemma findIndex_first:
  "i < length xs \<Longrightarrow> p (xs ! i) \<Longrightarrow> (\<forall>j<i. \<not> p (xs ! j)) \<Longrightarrow> findIndex p xs = Some i"
proof (induction xs arbitrary: i)
  case Nil
  then show ?case by simp
next
  case (Cons x xs)
  show ?case
  proof (cases i)
    case 0
    with Cons.prems show ?thesis by simp
  next
    case (Suc k)
    with Cons.prems have "\<not> p x" by auto
    moreover from Cons.prems Suc have "findIndex p xs = Some k"
      by (intro Cons.IH) auto
    ultimately show ?thesis using Suc by simp
  qed
qed

lemma find_findIndex: "findIndex p xs = Some i \<Longrightarrow> find p xs = Some (xs ! i)"
  by (induction xs arbitrary: i) (auto split: if_splits)

lemma find_findIndex_None: "findIndex p xs = None \<Longrightarrow> find p xs = None"
  by (induction xs) (auto split: if_splits)

section \<open>Lookup misses\<close>

text \<open>
  C8. When no record of the store has the identity key \<open>ident\<close>, \<open>updateVendor\<close> and
  \<open>deleteVendor\<close> return \<open>null\<close>, leave the store as it is, call no observer and complete
  normally.
\<close>

theorem C8_lookup_miss:
  assumes "\<forall>v\<in>set (data s). \<not> has_key s ident v"
  shows "updateVendor ident updates s = (s, [], Normal None)
       \<and> deleteVendor ident s = (s, [], Normal None)"
proof -
  from assms have "findIndex (has_key s ident) (data s) = None"
    by (simp add: findIndex_None)
  then show ?thesis
    by (simp add: updateVendor_def deleteVendor_def)
qed

theorem C8_lookup_miss_witness:
  "list_all (\<lambda>v. \<not> has_key store_123 (JNumber (Num 99)) v) (data store_123)
   \<and> updateVendor (JNumber (Num 99)) [(''name'', JString ''X'')] store_123 = (store_123, [], Normal None)
   \<and> deleteVendor (JNumber (Num 99)) store_123 = (store_123, [], Normal None)"
proof -
  have h: "\<forall>v\<in>set (data store_123). \<not> has_key store_123 (JNumber (Num 99)) v"
    by (simp add: store_123_def new_store_def has_key_def field_def vendor_1_def vendor_2_def vendor_3_def)
  from C8_lookup_miss [OF h] h show ?thesis by (simp add: list_all_iff)
qed

section \<open>Observer failures\<close>

lemma notify_calls_all:
  "notify obs event d = (cs, lg, c) \<Longrightarrow> cs = map (\<lambda>ob. (fst ob, event, d)) obs \<and> c = Normal ()"
  by (induction obs arbitrary: cs lg c) (auto split: option.splits prod.splits)

lemma notifyObservers_quiet:
  "quiet obs \<Longrightarrow> notifyObservers obs event d = (map (\<lambda>ob. (fst ob, event, d)) obs, Normal ())"
  by (induction obs) (auto simp: quiet_def)

text \<open>
  C3. The view's \<open>notify\<close> calls every observer and completes normally whatever they do
  (\<open>notify_calls_all\<close>). The store's \<open>notifyObservers\<close> does not: with a first observer that
  throws and a second that would return, the second is never called, the exception leaves
  \<open>notifyObservers\<close> and unwinds out of \<open>addVendor\<close>; the view's \<open>notify\<close> on the same
  two observers calls both and logs the error.
\<close>

theorem C3_store_notifier_propagates:
  "notifyObservers [(1, faulty), (2, healthy)] ''vendorAdded'' (Vendor vendor_1)
     = ([(1, ''vendorAdded'', Vendor vendor_1)], Throw ''boom'')
   \<and> snd (snd (addVendor vendor_1 (new_store\<lparr>observers := [(1, faulty), (2, healthy)]\<rparr>))) = Throw ''boom''
   \<and> notify [(1, faulty), (2, healthy)] ''dataChanged'' (ViewData [])
     = ([(1, ''dataChanged'', ViewData []), (2, ''dataChanged'', ViewData [])], [''boom''], Normal ())"
  by (simp add: faulty_def healthy_def addVendor_def after_notify_def new_store_def)

section \<open>The redo stack after a fresh command\<close>

lemma store_ops_quiet:
  assumes "quiet (observers s)"
  shows "\<exists>r. snd (snd (addVendor v s)) = Normal r"
    and "\<exists>r. snd (snd (updateVendor i u s)) = Normal r"
    and "\<exists>r. snd (snd (deleteVendor i s)) = Normal r"
  using assms
  by (auto simp: addVendor_def updateVendor_def deleteVendor_def after_notify_def
      notifyObservers_quiet Let_def split: option.splits)

lemma execute_quiet:
  assumes "quiet (observers s)"
  shows "snd (snd (snd (execute c s))) = Normal ()"
proof (cases c)
  case Command
  then show ?thesis by simp
next
  case (AddVendorCommand v)
  with store_ops_quiet(1) [OF assms, of v] show ?thesis
    by (auto simp: discard_def split: prod.splits)
next
  case (UpdateVendorCommand i u p)
  with store_ops_quiet(2) [OF assms, of i u] show ?thesis
    by (auto simp: discard_def Let_def split: prod.splits)
next
  case (DeleteVendorCommand i dv)
  with store_ops_quiet(3) [OF assms, of i] show ?thesis
    by (auto split: prod.splits completion.splits)
qed

text \<open>With observers that do not throw, \<open>executeCommand\<close> always completes normally.\<close>

lemma executeCommand_quiet:
  assumes "quiet (observers s)"
  shows "snd (snd (executeCommand c (h, s))) = Normal ()"
  using execute_quiet [OF assms, of c]
  by (auto simp: executeCommand_def split: prod.splits completion.splits)

lemma quiet_watched: "quiet (observers store_watched)"
  by (simp add: quiet_def store_watched_def healthy_def)

lemma executeCommand_example:
  "executeCommand (AddVendorCommand vendor_4) (history_1, store_watched)
     = ((\<lparr>undoStack = [AddVendorCommand vendor_4], redoStack = []\<rparr>,
         store_watched\<lparr>data := [vendor_1, vendor_2, vendor_3, vendor_4]\<rparr>),
        [(1, ''vendorAdded'', Vendor vendor_4)], Normal ())"
  by (simp add: executeCommand_def addVendor_def after_notify_def discard_def history_1_def
      store_watched_def store_123_def new_store_def healthy_def)

text \<open>
  \<open>executeCommand\<close> returns whenever no observer of the store throws; and when it has
  returned, the redo stack is empty, and a \<open>redo()\<close> issued next changes neither the store
  nor either stack, calls no observer and returns.
\<close>

lemma redo_after_returned_execute:
  "(quiet (observers s) \<longrightarrow> snd (snd (executeCommand c (h, s))) = Normal ())
   \<and> (snd (snd (executeCommand c (h, s))) = Normal () \<longrightarrow>
        redoStack (fst (fst (executeCommand c (h, s)))) = []
      \<and> redo (fst (executeCommand c (h, s))) = (fst (executeCommand c (h, s)), [], Normal ()))"
proof (intro conjI impI)
  assume "quiet (observers s)"
  then show "snd (snd (executeCommand c (h, s))) = Normal ()"
    by (rule executeCommand_quiet)
next
  assume n: "snd (snd (executeCommand c (h, s))) = Normal ()"
  then show "redoStack (fst (fst (executeCommand c (h, s)))) = []"
    by (auto simp: executeCommand_def split: prod.splits completion.splits)
  from n show "redo (fst (executeCommand c (h, s))) = (fst (executeCommand c (h, s)), [], Normal ())"
    by (auto simp: executeCommand_def redo_def split: prod.splits completion.splits)
qed

lemma redo_after_returned_execute_example:
  "redoStack history_1 = [DeleteVendorCommand (JNumber (Num 2)) None]
   \<and> executeCommand (AddVendorCommand vendor_4) (history_1, store_watched)
     = ((\<lparr>undoStack = [AddVendorCommand vendor_4], redoStack = []\<rparr>,
         store_watched\<lparr>data := [vendor_1, vendor_2, vendor_3, vendor_4]\<rparr>),
        [(1, ''vendorAdded'', Vendor vendor_4)], Normal ())
   \<and> redo (\<lparr>undoStack = [AddVendorCommand vendor_4], redoStack = []\<rparr>,
            store_watched\<lparr>data := [vendor_1, vendor_2, vendor_3, vendor_4]\<rparr>)
     = ((\<lparr>undoStack = [AddVendorCommand vendor_4], redoStack = []\<rparr>,
         store_watched\<lparr>data := [vendor_1, vendor_2, vendor_3, vendor_4]\<rparr>), [], Normal ())"
  using redo_after_returned_execute [of store_watched "AddVendorCommand vendor_4" history_1]
    quiet_watched executeCommand_example
  by (simp add: history_1_def)

text \<open>
  C6. Not after every call: \<open>executeCommand\<close> runs \<open>command.execute()\<close> first, and the
  store's \<open>notifyObservers\<close> lets an observer's exception through. With an observer that
  throws on \<open>vendorAdded\<close>, \<open>executeCommand\<close> of an add puts the record in the store and
  throws before the redo stack is cleared; the stack still holds the command it held, and
  the \<open>redo()\<close> issued next runs that stale command: it deletes a record from the store,
  empties the redo stack and pushes on the undo stack.
\<close>

theorem C6_redo_stack_survives_throw:
  "redoStack history_1 = [DeleteVendorCommand (JNumber (Num 2)) None]
   \<and> executeCommand (AddVendorCommand vendor_4) (history_1, store_faulty)
     = ((history_1, store_faulty\<lparr>data := [vendor_1, vendor_2, vendor_3, vendor_4]\<rparr>),
        [(1, ''vendorAdded'', Vendor vendor_4)], Throw ''boom'')
   \<and> redo (history_1, store_faulty\<lparr>data := [vendor_1, vendor_2, vendor_3, vendor_4]\<rparr>)
     = ((\<lparr>undoStack = [DeleteVendorCommand (JNumber (Num 2)) (Some vendor_2)], redoStack = []\<rparr>,
         store_faulty\<lparr>data := [vendor_1, vendor_3, vendor_4]\<rparr>),
        [(1, ''vendorDeleted'', Vendor vendor_2)], Normal ())"
  by (simp add: executeCommand_def redo_def addVendor_def deleteVendor_def after_notify_def
      discard_def history_1_def store_faulty_def store_123_def new_store_def faulty_on_add_def
      has_key_def field_def vendor_1_def vendor_2_def Let_def)

section \<open>Undoing a delete\<close>

text \<open>
  C10. When the store has a record with the key and \<open>execute\<close> of the delete command has
  returned, its \<open>undo\<close> leaves the sequence of the store as the original one with the first
  record of that key taken out and put at the end: the same records, in another order.
\<close>

theorem C10_delete_undo_appends:
  assumes "findIndex (has_key s ident) (data s) = Some i"
      and "execute (DeleteVendorCommand ident dv) s = (c', s', cs, Normal ())"
  shows "data (fst (undo c' s')) = take i (data s) @ drop (Suc i) (data s) @ [data s ! i]"
  using assms
  by (auto simp: deleteVendor_def addVendor_def after_notify_def Let_def
       split: prod.splits completion.splits option.splits)

theorem C10_delete_undo_appends_witness:
  "findIndex (has_key store_123 (JNumber (Num 1))) (data store_123) = Some 0
   \<and> execute (DeleteVendorCommand (JNumber (Num 1)) None) store_123
       = (DeleteVendorCommand (JNumber (Num 1)) (Some vendor_1),
          store_123\<lparr>data := [vendor_2, vendor_3]\<rparr>, [], Normal ())
   \<and> data (fst (undo (DeleteVendorCommand (JNumber (Num 1)) (Some vendor_1))
                      (store_123\<lparr>data := [vendor_2, vendor_3]\<rparr>)))
       = [vendor_2, vendor_3, vendor_1]"
proof -
  have f: "findIndex (has_key store_123 (JNumber (Num 1))) (data store_123) = Some 0"
    by (simp add: store_123_def new_store_def has_key_def field_def vendor_1_def)
  have e: "execute (DeleteVendorCommand (JNumber (Num 1)) None) store_123
       = (DeleteVendorCommand (JNumber (Num 1)) (Some vendor_1),
          store_123\<lparr>data := [vendor_2, vendor_3]\<rparr>, [], Normal ())"
    using f by (simp add: deleteVendor_def after_notify_def store_123_def new_store_def)
  from C10_delete_undo_appends [OF f e] f e show ?thesis
    by (simp add: store_123_def)
qed

section \<open>Identity keys\<close>

lemma key_of_data [simp]: "key_of (s\<lparr>data := d\<rparr>) = key_of s"
  by (simp add: fun_eq_iff key_of_def)

lemma distinct_remove_nth:
  assumes "distinct xs" shows "distinct (take i xs @ drop (Suc i) xs)"
proof (cases "i < length xs")
  case True
  then have "xs = take i xs @ xs ! i # drop (Suc i) xs"
    by (simp add: id_take_nth_drop)
  with assms have "distinct (take i xs @ xs ! i # drop (Suc i) xs)" by simp
  then show ?thesis by auto
next
  case False
  with assms show ?thesis by simp
qed

lemma distinct_update_nth:
  assumes "distinct xs" "i < length xs" "k = xs ! i \<or> k \<notin> set xs"
  shows "distinct (xs[i := k])"
  using assms by (auto simp: distinct_list_update)

lemma keys_unique_step:
  assumes "keys_unique s" "keeps_keys s op"
  shows "keys_unique (apply_op op s)"
proof (cases op)
  case (SetData d)
  with assms show ?thesis
    by (simp add: keys_unique_def setData_def)
next
  case (AddVendor v)
  with assms show ?thesis
    by (simp add: keys_unique_def addVendor_def)
next
  case (UpdateVendor ident updates)
  show ?thesis
  proof (cases "findIndex (has_key s ident) (data s)")
    case None
    with UpdateVendor assms show ?thesis by (simp add: updateVendor_def)
  next
    case (Some i)
    then have i: "i < length (data s)" using findIndex_Some by blast
    let ?k = "key_of s (spread (data s ! i) updates)"
    from assms(2) UpdateVendor Some
    have "?k = map (key_of s) (data s) ! i \<or> ?k \<notin> set (map (key_of s) (data s))"
      using i by (simp add: Let_def)
    with assms(1) i have "distinct ((map (key_of s) (data s))[i := ?k])"
      unfolding keys_unique_def by (intro distinct_update_nth) auto
    then have "distinct (map (key_of s) ((data s)[i := spread (data s ! i) updates]))"
      by (simp add: map_update)
    with UpdateVendor Some show ?thesis
      by (simp add: keys_unique_def updateVendor_def Let_def)
  qed
next
  case (DeleteVendor ident)
  show ?thesis
  proof (cases "findIndex (has_key s ident) (data s)")
    case None
    with DeleteVendor assms show ?thesis by (simp add: deleteVendor_def)
  next
    case (Some i)
    from assms(1) have "distinct (take i (map (key_of s) (data s)) @ drop (Suc i) (map (key_of s) (data s)))"
      unfolding keys_unique_def by (rule distinct_remove_nth)
    then have "distinct (map (key_of s) (take i (data s) @ drop (Suc i) (data s)))"
      by (simp add: take_map drop_map)
    with DeleteVendor Some show ?thesis
      by (simp add: keys_unique_def deleteVendor_def Let_def)
  qed
qed

text \<open>
  C4, as the code has it. The store checks no key: the identity keys stay distinct along
  a sequence of operations when every \<open>setData\<close> loads distinct keys, every \<open>addVendor\<close>
  brings a key the store does not hold, and every \<open>updateVendor\<close> leaves the key of its
  record as it is or moves it to a key the store does not hold.
\<close>

theorem C4_keys_unique_guarded:
  "keys_unique s \<Longrightarrow> guarded ops s \<Longrightarrow> keys_unique (run ops s)"
  unfolding run_def
  by (induction ops arbitrary: s) (auto intro: keys_unique_step)

theorem C4_keys_unique_guarded_witness:
  "keys_unique new_store
   \<and> guarded [AddVendor vendor_1, AddVendor vendor_2,
              UpdateVendor (JNumber (Num 1)) [(''name'', JString ''Carl'')],
              DeleteVendor (JNumber (Num 2))] new_store
   \<and> keys_unique (run [AddVendor vendor_1, AddVendor vendor_2,
                       UpdateVendor (JNumber (Num 1)) [(''name'', JString ''Carl'')],
                       DeleteVendor (JNumber (Num 2))] new_store)"
proof -
  have a: "keys_unique new_store" by (simp add: keys_unique_def new_store_def)
  have b: "guarded [AddVendor vendor_1, AddVendor vendor_2,
              UpdateVendor (JNumber (Num 1)) [(''name'', JString ''Carl'')],
              DeleteVendor (JNumber (Num 2))] new_store"
    by (simp add: new_store_def addVendor_def updateVendor_def deleteVendor_def key_of_def field_def
        vendor_1_def vendor_2_def has_key_def spread_def Let_def)
  from C4_keys_unique_guarded [OF a b] a b show ?thesis by simp
qed

text \<open>Adding the same record twice to the empty store gives two records with one key.\<close>

theorem C4_duplicate_key_counterexample:
  "\<not> keys_unique (run [AddVendor vendor_1, AddVendor vendor_1] new_store)"
  by (simp add: run_def keys_unique_def addVendor_def new_store_def)

section \<open>Execute, then undo\<close>

lemma upsert_keys: "k \<in> fst ` set v \<Longrightarrow> map fst (upsert k x v) = map fst v"
  by (induction v) force+

lemma spread_keys: "fst ` set u \<subseteq> fst ` set v \<Longrightarrow> map fst (spread v u) = map fst v"
  unfolding spread_def
proof (induction u arbitrary: v)
  case Nil
  then show ?case by simp
next
  case (Cons e u)
  obtain k x where e: "e = (k, x)" by (cases e)
  with Cons.prems have k: "k \<in> fst ` set v" by auto
  then have same: "map fst (upsert k x v) = map fst v" by (rule upsert_keys)
  then have "fst ` set (upsert k x v) = fst ` set v"
    by (metis list.set_map)
  with Cons.prems e have "fst ` set u \<subseteq> fst ` set (upsert k x v)" by auto
  from Cons.IH [OF this] same e show ?case by simp
qed

lemma fold_upsert_other:
  "k \<notin> fst ` set p \<Longrightarrow>
   fold (\<lambda>(k, x). upsert k x) p ((k, x) # q) = (k, x) # fold (\<lambda>(k, x). upsert k x) p q"
  by (induction p arbitrary: q) auto

lemma spread_back:
  "distinct (map fst p) \<Longrightarrow> map fst q = map fst p \<Longrightarrow> spread q p = p"
  unfolding spread_def
proof (induction p arbitrary: q)
  case Nil
  then show ?case by simp
next
  case (Cons e p)
  obtain k x where e: "e = (k, x)" by (cases e)
  from Cons.prems(2) e obtain y q' where q: "q = (k, y) # q'" "map fst q' = map fst p"
    by (cases q) auto
  from Cons.prems(1) e have k: "k \<notin> fst ` set p" and d: "distinct (map fst p)" by auto
  have "fold (\<lambda>(k, x). upsert k x) (e # p) q = fold (\<lambda>(k, x). upsert k x) p ((k, x) # q')"
    using e q by simp
  also have "\<dots> = (k, x) # fold (\<lambda>(k, x). upsert k x) p q'"
    using k by (rule fold_upsert_other)
  also have "\<dots> = (k, x) # p"
    using Cons.IH [OF d q(2)] by simp
  finally show ?case using e by simp
qed

lemma undo_add:
  assumes "reversible s (AddVendorCommand v)"
  shows "fst (undo (AddVendorCommand v) (fst (addVendor v s))) = s"
proof -
  let ?k = "field v (primaryKey s)"
  let ?s' = "s\<lparr>data := data s @ [v]\<rparr>"
  from assms have nan: "?k \<noteq> JNumber NaN" and fresh: "\<forall>x\<in>set (data s). \<not> has_key s ?k x"
    by (simp_all add: list_all_iff)
  from nan have "strict_eq ?k ?k" by (cases "(?k, ?k)" rule: strict_eq.cases) auto
  then have "has_key ?s' ?k v" by (simp add: has_key_def)
  moreover have "\<forall>j<length (data s). \<not> has_key ?s' ?k ((data s @ [v]) ! j)"
    using fresh by (auto simp: nth_append has_key_def)
  ultimately have "findIndex (has_key ?s' ?k) (data ?s') = Some (length (data s))"
    by (intro findIndex_first) (auto simp: nth_append)
  then show ?thesis
    by (simp add: addVendor_def deleteVendor_def Let_def split: prod.splits)
qed

lemma undo_update:
  assumes "reversible s (UpdateVendorCommand ident updates p)"
  shows "fst (undo (UpdateVendorCommand ident updates (getVendor ident s))
                   (fst (updateVendor ident updates s))) = s"
proof (cases "findIndex (has_key s ident) (data s)")
  case None
  then show ?thesis
    by (simp add: getVendor_def find_findIndex_None updateVendor_def)
next
  case (Some i)
  let ?old = "data s ! i"
  let ?m = "spread ?old updates"
  let ?s' = "s\<lparr>data := (data s)[i := ?m]\<rparr>"
  from Some have i: "i < length (data s)" "has_key s ident ?old" "\<forall>j<i. \<not> has_key s ident (data s ! j)"
    using findIndex_Some by blast+
  from Some have g: "getVendor ident s = Some ?old"
    by (simp add: getVendor_def find_findIndex)
  with assms have d: "distinct (map fst ?old)" and sub: "fst ` set updates \<subseteq> fst ` set ?old"
    and key: "field ?m (primaryKey s) = field ?old (primaryKey s)"
    by (auto simp: list_all_iff)
  from key i(2) have "has_key ?s' ident ?m" by (simp add: has_key_def)
  moreover have "\<forall>j<i. \<not> has_key ?s' ident ((data s)[i := ?m] ! j)"
    using i by (auto simp: has_key_def)
  ultimately have f: "findIndex (has_key ?s' ident) (data ?s') = Some i"
    using i(1) by (intro findIndex_first) auto
  have "spread ?m ?old = ?old"
    using d spread_keys [OF sub] by (rule spread_back)
  with f i(1) have u: "fst (updateVendor ident ?old ?s') = s"
    by (simp add: updateVendor_def Let_def)
  have e: "fst (updateVendor ident updates s) = ?s'"
    using Some by (simp add: updateVendor_def Let_def)
  show ?thesis
    unfolding g e using u by (simp add: case_prod_unfold)
qed

lemma undo_delete:
  assumes "deleteVendor ident s = (s', cs, Normal d)"
  shows "mset (data (fst (undo (DeleteVendorCommand ident d) s'))) = mset (data s)
       \<and> primaryKey (fst (undo (DeleteVendorCommand ident d) s')) = primaryKey s"
proof (cases "findIndex (has_key s ident) (data s)")
  case None
  with assms show ?thesis by (auto simp: deleteVendor_def)
next
  case (Some i)
  then have i: "i < length (data s)" using findIndex_Some by blast
  then have "data s = take i (data s) @ data s ! i # drop (Suc i) (data s)"
    by (simp add: id_take_nth_drop)
  then have "mset (data s) = mset (take i (data s) @ drop (Suc i) (data s) @ [data s ! i])"
    by (metis append_Cons append_Nil mset_append union_commute union_assoc mset.simps(2) add_mset_add_single)
  with Some assms show ?thesis
    by (auto simp: deleteVendor_def addVendor_def after_notify_def Let_def split: prod.splits completion.splits)
qed

lemma store_equal_mset:
  "mset (data s) = mset (data t) \<Longrightarrow> primaryKey s = primaryKey t \<Longrightarrow> store_equal s t"
  unfolding store_equal_def by (metis mset_map set_mset_mset)


lemma add_existing_key_round_trip: "round_trip (AddVendorCommand vendor_1_again) store_123
     = (store_123\<lparr>data := [vendor_2, vendor_3, vendor_1_again]\<rparr>, Normal ())"
  by (simp add: round_trip_def addVendor_def deleteVendor_def after_notify_def discard_def
      store_123_def new_store_def has_key_def field_def vendor_1_again_def vendor_1_def)

lemma add_existing_key_differs: "\<not> store_equal (store_123\<lparr>data := [vendor_2, vendor_3, vendor_1_again]\<rparr>) store_123"
proof
  assume "store_equal (store_123\<lparr>data := [vendor_2, vendor_3, vendor_1_again]\<rparr>) store_123"
  then have "set (map set [vendor_2, vendor_3, vendor_1_again]) = set (map set (data store_123))"
    by (simp add: store_equal_def)
  then have "set vendor_1 \<in> {set vendor_2, set vendor_3, set vendor_1_again}"
    by (auto simp: store_123_def new_store_def)
  moreover have "(''name'', JString ''Charlie'') \<in> set vendor_1" by (simp add: vendor_1_def)
  moreover have "(''name'', JString ''Charlie'') \<notin> set vendor_2" by (simp add: vendor_2_def)
  moreover have "(''name'', JString ''Charlie'') \<notin> set vendor_3" by (simp add: vendor_3_def)
  moreover have "(''name'', JString ''Charlie'') \<notin> set vendor_1_again" by (simp add: vendor_1_again_def)
  ultimately show False by auto
qed

text \<open>An update that brings a new field: the undo merges the previous state over the
  record and the new field stays.\<close>

lemma update_undo_keeps_new_field: "round_trip (UpdateVendorCommand (JNumber (Num 4)) [(''phone'', JString ''555'')] None)
      (new_store\<lparr>data := [vendor_4]\<rparr>)
   = (new_store\<lparr>data := [vendor_4 @ [(''phone'', JString ''555'')]]\<rparr>, Normal ())"
  by (simp add: round_trip_def updateVendor_def getVendor_def after_notify_def discard_def
      new_store_def has_key_def field_def vendor_4_def spread_def Let_def)


text \<open>
  C1, as the code has it. For a reversible command (an add of a record whose key is not
  \<open>NaN\<close> and matches no record of the store, an update that names only fields its record
  has and leaves the key as it is, any delete, the base command), when \<open>execute\<close> and then
  \<open>undo\<close> have returned, the store is equal to the one before by identity-key set and field
  values: it is the very same store after an add or an update, and holds the same records,
  the deleted one moved to the end, after a delete.
\<close>

theorem C1_round_trip_reversible:
  assumes "reversible s c" and "round_trip c s = (s'', Normal ())"
  shows "store_equal s'' s
       \<and> (case c of DeleteVendorCommand ident d \<Rightarrow> mset (data s'') = mset (data s) | _ \<Rightarrow> s'' = s)"
proof (cases c)
  case Command
  with assms(2) have "s'' = s" by (simp add: round_trip_def)
  with Command show ?thesis by (simp add: store_equal_def)
next
  case (AddVendorCommand v)
  from undo_add [of s v] assms(1) AddVendorCommand
  have "fst (undo (AddVendorCommand v) (fst (addVendor v s))) = s" by simp
  moreover from assms(2) AddVendorCommand
  have "s'' = fst (undo (AddVendorCommand v) (fst (addVendor v s)))"
    by (auto simp: round_trip_def simp del: undo.simps split: prod.splits completion.splits)
  ultimately have "s'' = s" by simp
  with AddVendorCommand show ?thesis by (simp add: store_equal_def)
next
  case (UpdateVendorCommand ident updates p)
  from undo_update [of s ident updates p] assms(1) UpdateVendorCommand
  have "fst (undo (UpdateVendorCommand ident updates (getVendor ident s))
                   (fst (updateVendor ident updates s))) = s" by simp
  moreover from assms(2) UpdateVendorCommand
  have "s'' = fst (undo (UpdateVendorCommand ident updates (getVendor ident s))
                   (fst (updateVendor ident updates s)))"
    by (auto simp: round_trip_def Let_def simp del: undo.simps split: prod.splits completion.splits)
  ultimately have "s'' = s" by simp
  with UpdateVendorCommand show ?thesis by (simp add: store_equal_def)
next
  case (DeleteVendorCommand ident dv)
  with assms(2) obtain s' cs d where d: "deleteVendor ident s = (s', cs, Normal d)"
    and s'': "s'' = fst (undo (DeleteVendorCommand ident d) s')"
    by (auto simp: round_trip_def split: prod.splits completion.splits)
  from undo_delete [OF d] s'' have "mset (data s'') = mset (data s)" "primaryKey s'' = primaryKey s"
    by simp_all
  with DeleteVendorCommand show ?thesis by (simp add: store_equal_mset)
qed

theorem C1_round_trip_reversible_witness:
  "reversible store_123 (AddVendorCommand vendor_4)
   \<and> round_trip (AddVendorCommand vendor_4) store_123 = (store_123, Normal ())
   \<and> reversible store_123 (UpdateVendorCommand (JNumber (Num 2)) [(''name'', JString ''Alicia'')] None)
   \<and> round_trip (UpdateVendorCommand (JNumber (Num 2)) [(''name'', JString ''Alicia'')] None) store_123
        = (store_123, Normal ())
   \<and> reversible store_123 (DeleteVendorCommand (JNumber (Num 1)) None)
   \<and> round_trip (DeleteVendorCommand (JNumber (Num 1)) None) store_123
        = (store_123\<lparr>data := [vendor_2, vendor_3, vendor_1]\<rparr>, Normal ())
   \<and> store_equal (store_123\<lparr>data := [vendor_2, vendor_3, vendor_1]\<rparr>) store_123"
proof -
  have a1: "reversible store_123 (AddVendorCommand vendor_4)"
    by (simp add: store_123_def new_store_def has_key_def field_def vendor_1_def vendor_2_def
        vendor_3_def vendor_4_def)
  have a2: "round_trip (AddVendorCommand vendor_4) store_123 = (store_123, Normal ())"
    by (simp add: round_trip_def addVendor_def deleteVendor_def after_notify_def discard_def
        store_123_def new_store_def has_key_def field_def vendor_1_def vendor_2_def vendor_3_def
        vendor_4_def)
  have u1: "reversible store_123 (UpdateVendorCommand (JNumber (Num 2)) [(''name'', JString ''Alicia'')] None)"
    by (simp add: getVendor_def store_123_def new_store_def has_key_def field_def vendor_1_def
        vendor_2_def spread_def)
  have u2: "round_trip (UpdateVendorCommand (JNumber (Num 2)) [(''name'', JString ''Alicia'')] None) store_123
        = (store_123, Normal ())"
    by (simp add: round_trip_def updateVendor_def getVendor_def after_notify_def discard_def
        store_123_def new_store_def has_key_def field_def vendor_1_def vendor_2_def spread_def Let_def)
  have d1: "reversible store_123 (DeleteVendorCommand (JNumber (Num 1)) None)"
    by simp
  have d2: "round_trip (DeleteVendorCommand (JNumber (Num 1)) None) store_123
        = (store_123\<lparr>data := [vendor_2, vendor_3, vendor_1]\<rparr>, Normal ())"
    by (simp add: round_trip_def addVendor_def deleteVendor_def after_notify_def discard_def
        store_123_def new_store_def has_key_def field_def vendor_1_def)
  from C1_round_trip_reversible [OF a1 a2] C1_round_trip_reversible [OF u1 u2]
    C1_round_trip_reversible [OF d1 d2] a1 a2 u1 u2 d1 d2
  show ?thesis by simp
qed

text \<open>
  As stated, for every command in any state, the round trip fails: adding a record whose
  key the store already holds and undoing removes the older record of that key, so the
  store keeps the key set and loses the field values of the older record.
\<close>

theorem C1_round_trip_counterexample:
  "round_trip (AddVendorCommand vendor_1_again) store_123
     = (store_123\<lparr>data := [vendor_2, vendor_3, vendor_1_again]\<rparr>, Normal ())
   \<and> \<not> store_equal (store_123\<lparr>data := [vendor_2, vendor_3, vendor_1_again]\<rparr>) store_123"
  using add_existing_key_round_trip add_existing_key_differs by simp

section \<open>The derived view\<close>

lemma passes_iff:
  "passes m fs item \<longleftrightarrow> (\<forall>(column, searchTerm)\<in>set fs. m (field item column) searchTerm)"
  by (induction fs) (auto split: if_splits)

text \<open>
  C2. With no sort column set (\<open>sortColumn\<close> is \<open>null\<close> or empty), the derived view that
  \<open>applyFiltersAndSort\<close> computes holds exactly the records on which the search strategy
  matches for every entry of the filters, in the order they have in the data.
\<close>

theorem C2_filter_conjunction:
  assumes "\<not> column_set (sortColumn s)"
  shows "filteredData (applyFiltersAndSort s)
       = filter (\<lambda>item. \<forall>(column, searchTerm)\<in>set (searchFilters s).
                          searchStrategy s (field item column) searchTerm) (view_data s)"
proof -
  have "passes (searchStrategy s) (searchFilters s)
      = (\<lambda>item. \<forall>(column, searchTerm)\<in>set (searchFilters s).
                          searchStrategy s (field item column) searchTerm)"
    by (rule ext) (rule passes_iff)
  with assms show ?thesis by (simp add: applyFiltersAndSort_def)
qed

lemma partial_match_examples:
  "PartialSearchStrategy (JString ''A'') (JString ''A'')"
  "\<not> PartialSearchStrategy (JString ''B'') (JString ''A'')"
  by code_simp+

theorem C2_filter_conjunction_witness:
  "filteredData (applyFiltersAndSort (default_view\<lparr>view_data := [item_a1, item_b, item_a2],
       searchFilters := [(''category'', JString ''A'')]\<rparr>)) = [item_a1, item_a2]"
proof -
  let ?s = "default_view\<lparr>view_data := [item_a1, item_b, item_a2],
                          searchFilters := [(''category'', JString ''A'')]\<rparr>"
  have h: "\<not> column_set (sortColumn ?s)"
    by (simp add: default_view_def new_app_state_def column_set_def)
  from C2_filter_conjunction [OF h] show ?thesis
    by (simp add: default_view_def new_app_state_def field_def item_a1_def item_b_def item_a2_def
        partial_match_examples)
qed

text \<open>
  C7. \<open>setSortColumn(c)\<close> leaves \<open>c\<close> as the sort column; the direction is toggled (\<open>asc\<close> to
  \<open>desc\<close>, anything else to \<open>asc\<close>) when \<open>c\<close> was the sort column already and is \<open>asc\<close>
  otherwise. On a view with no sort column, two calls with the same column give \<open>asc\<close>, then
  \<open>desc\<close>, and for a column name that is not empty the view is the filtered data sorted by
  the sort strategy on that column, ascending after the first call and descending after
  the second.
\<close>

theorem C7_setSortColumn_toggle:
  "sortColumn (fst (setSortColumn c s)) = Some c
   \<and> sortDirection (fst (setSortColumn c s))
       = (if sortColumn s = Some c then (if sortDirection s = ''asc'' then ''desc'' else ''asc'')
          else ''asc'')
   \<and> (sortColumn s = None \<longrightarrow>
        sortDirection (fst (setSortColumn c s)) = ''asc''
      \<and> sortColumn (fst (setSortColumn c (fst (setSortColumn c s)))) = Some c
      \<and> sortDirection (fst (setSortColumn c (fst (setSortColumn c s)))) = ''desc''
      \<and> (c \<noteq> [] \<longrightarrow>
           filteredData (fst (setSortColumn c s))
             = sortStrategy s (filter (passes (searchStrategy s) (searchFilters s)) (view_data s)) c ''asc''
         \<and> filteredData (fst (setSortColumn c (fst (setSortColumn c s))))
             = sortStrategy s (filter (passes (searchStrategy s) (searchFilters s)) (view_data s)) c ''desc''))"
  by (simp add: setSortColumn_def applyFiltersAndSort_def Let_def column_set_def)

lemma sort_names_examples:
  "AlphabeticSortStrategy stable_sort code_compare [vendor_1, vendor_2, vendor_3] ''name'' ''asc''
     = [vendor_2, vendor_3, vendor_1]"
  "AlphabeticSortStrategy stable_sort code_compare [vendor_1, vendor_2, vendor_3] ''name'' ''desc''
     = [vendor_1, vendor_3, vendor_2]"
  by code_simp+

theorem C7_setSortColumn_toggle_witness:
  "sortColumn view_123 = None
   \<and> sortDirection (fst (setSortColumn ''name'' view_123)) = ''asc''
   \<and> filteredData (fst (setSortColumn ''name'' view_123)) = [vendor_2, vendor_3, vendor_1]
   \<and> sortDirection (fst (setSortColumn ''name'' (fst (setSortColumn ''name'' view_123)))) = ''desc''
   \<and> filteredData (fst (setSortColumn ''name'' (fst (setSortColumn ''name'' view_123))))
        = [vendor_1, vendor_3, vendor_2]"
proof -
  have n: "sortColumn view_123 = None"
    by (simp add: view_123_def default_view_def new_app_state_def)
  have f: "filter (passes (searchStrategy view_123) (searchFilters view_123)) (view_data view_123)
             = [vendor_1, vendor_2, vendor_3]"
    by (simp add: view_123_def default_view_def new_app_state_def)
  have st: "sortStrategy view_123 = AlphabeticSortStrategy stable_sort code_compare"
    by (simp add: view_123_def default_view_def new_app_state_def)
  from C7_setSortColumn_toggle [of "''name''" view_123] n show ?thesis
    by (simp add: f st sort_names_examples)
qed

section \<open>The chronological sorter\<close>

lemma date_key_falsy: "\<not> truthy (field a column) \<Longrightarrow> date_key parse column a = Num 0"
  by (simp add: date_key_def or_else_def)

lemma date_key_unparsable:
  "field a column = JString s \<Longrightarrow> s \<noteq> [] \<Longrightarrow> parse s = None \<Longrightarrow> date_key parse column a = NaN"
  by (simp add: date_key_def or_else_def)

text \<open>
  C5. An absent field has the timestamp \<open>0\<close>, as \<open>|| 0\<close> makes it. A string that is not a
  date has the timestamp \<open>NaN\<close>, not \<open>0\<close>: the comparator returns \<open>NaN\<close> against a record
  dated before the epoch, and the ascending sort leaves the undated record in front of it,
  where a record with the timestamp \<open>0\<close> (the absent one) goes behind.
\<close>

theorem C5_unparsable_date_is_nan:
  "date_key sample_parse ''joined'' joined_never = Num 0
   \<and> date_key sample_parse ''joined'' joined_soon = NaN
   \<and> date_compare sample_parse ''joined'' ''asc'' joined_soon joined_1969 = NaN
   \<and> DateSortStrategy stable_sort sample_parse [joined_soon, joined_1969] ''joined'' ''asc''
       = [joined_soon, joined_1969]
   \<and> DateSortStrategy stable_sort sample_parse [joined_never, joined_1969] ''joined'' ''asc''
       = [joined_1969, joined_never]"
  by code_simp

section \<open>Stability of the sorters\<close>

subsection \<open>What a consistent comparator gives\<close>

lemma cons_refl: "consistent_on cmp A \<Longrightarrow> a \<in> A \<Longrightarrow> sort_compare cmp a a = 0"
  unfolding consistent_on_def by blast

lemma cons_sym: "consistent_on cmp A \<Longrightarrow> a \<in> A \<Longrightarrow> b \<in> A \<Longrightarrow> sort_compare cmp a b = 0 \<Longrightarrow> sort_compare cmp b a = 0"
  unfolding consistent_on_def by blast

lemma cons_tie_trans:
  "consistent_on cmp A \<Longrightarrow> a \<in> A \<Longrightarrow> b \<in> A \<Longrightarrow> c \<in> A \<Longrightarrow>
   sort_compare cmp a b = 0 \<Longrightarrow> sort_compare cmp b c = 0 \<Longrightarrow> sort_compare cmp a c = 0"
  unfolding consistent_on_def by blast

lemma cons_lt_trans:
  "consistent_on cmp A \<Longrightarrow> a \<in> A \<Longrightarrow> b \<in> A \<Longrightarrow> c \<in> A \<Longrightarrow>
   sort_compare cmp a b < 0 \<Longrightarrow> sort_compare cmp b c < 0 \<Longrightarrow> sort_compare cmp a c < 0"
  unfolding consistent_on_def by blast

lemma cons_gt_trans:
  "consistent_on cmp A \<Longrightarrow> a \<in> A \<Longrightarrow> b \<in> A \<Longrightarrow> c \<in> A \<Longrightarrow>
   sort_compare cmp a b > 0 \<Longrightarrow> sort_compare cmp b c > 0 \<Longrightarrow> sort_compare cmp a c > 0"
  unfolding consistent_on_def by blast

lemma cons_flip_lt:
  assumes "consistent_on cmp A" "a \<in> A" "b \<in> A" "sort_compare cmp a b < 0"
  shows "sort_compare cmp b a > 0"
proof (rule ccontr)
  assume "\<not> 0 < sort_compare cmp b a"
  then consider "sort_compare cmp b a = 0" | "sort_compare cmp b a < 0" by linarith
  then show False
  proof cases
    case 1
    from cons_sym [OF assms(1) assms(3) assms(2) 1] assms(4) show False by simp
  next
    case 2
    from cons_lt_trans [OF assms(1) assms(2) assms(3) assms(2) assms(4) 2]
      cons_refl [OF assms(1) assms(2)] show False by simp
  qed
qed

lemma cons_flip_gt:
  assumes "consistent_on cmp A" "a \<in> A" "b \<in> A" "sort_compare cmp a b > 0"
  shows "sort_compare cmp b a < 0"
proof (rule ccontr)
  assume "\<not> sort_compare cmp b a < 0"
  then consider "sort_compare cmp b a = 0" | "sort_compare cmp b a > 0" by linarith
  then show False
  proof cases
    case 1
    from cons_sym [OF assms(1) assms(3) assms(2) 1] assms(4) show False by simp
  next
    case 2
    from cons_gt_trans [OF assms(1) assms(2) assms(3) assms(2) assms(4) 2]
      cons_refl [OF assms(1) assms(2)] show False by simp
  qed
qed

lemma cons_ge_flip:
  assumes "consistent_on cmp A" "a \<in> A" "b \<in> A" "sort_compare cmp a b \<ge> 0"
  shows "sort_compare cmp b a \<le> 0"
  using assms cons_flip_gt [of cmp A a b] cons_sym [of cmp A a b]
  by (cases "sort_compare cmp a b = 0") auto

lemma cons_tie_lt:
  assumes "consistent_on cmp A" "a \<in> A" "b \<in> A" "c \<in> A"
    and "sort_compare cmp a b = 0" "sort_compare cmp b c < 0"
  shows "sort_compare cmp a c < 0"
proof (rule ccontr)
  assume "\<not> sort_compare cmp a c < 0"
  then consider "sort_compare cmp a c = 0" | "sort_compare cmp a c > 0" by linarith
  then show False
  proof cases
    case 1
    from cons_sym [OF assms(1,2,3) assms(5)] have "sort_compare cmp b a = 0" .
    from cons_tie_trans [OF assms(1) assms(3) assms(2) assms(4) this 1] assms(6)
    show False by simp
  next
    case 2
    from cons_flip_gt [OF assms(1,2,4) 2] have "sort_compare cmp c a < 0" .
    from cons_lt_trans [OF assms(1) assms(3) assms(4) assms(2) assms(6) this]
      cons_sym [OF assms(1,2,3) assms(5)]
    show False by simp
  qed
qed

lemma cons_lt_tie:
  assumes "consistent_on cmp A" "a \<in> A" "b \<in> A" "c \<in> A"
    and "sort_compare cmp a b < 0" "sort_compare cmp b c = 0"
  shows "sort_compare cmp a c < 0"
proof (rule ccontr)
  assume "\<not> sort_compare cmp a c < 0"
  then consider "sort_compare cmp a c = 0" | "sort_compare cmp a c > 0" by linarith
  then show False
  proof cases
    case 1
    from cons_sym [OF assms(1,3,4) assms(6)] have "sort_compare cmp c b = 0" .
    from cons_tie_trans [OF assms(1) assms(2) assms(4) assms(3) 1 this] assms(5)
    show False by simp
  next
    case 2
    from cons_flip_gt [OF assms(1,2,4) 2] have "sort_compare cmp c a < 0" .
    from cons_lt_trans [OF assms(1) assms(4) assms(2) assms(3) this assms(5)] 
      cons_sym [OF assms(1,3,4) assms(6)]
    show False by simp
  qed
qed

lemma cons_le_lt:
  assumes "consistent_on cmp A" "a \<in> A" "b \<in> A" "c \<in> A"
    and "sort_compare cmp a b \<le> 0" "sort_compare cmp b c < 0"
  shows "sort_compare cmp a c < 0"
  using assms cons_tie_lt [of cmp A a b c] cons_lt_trans [of cmp A a b c]
  by (cases "sort_compare cmp a b = 0") auto

lemma cons_lt_le:
  assumes "consistent_on cmp A" "a \<in> A" "b \<in> A" "c \<in> A"
    and "sort_compare cmp a b < 0" "sort_compare cmp b c \<le> 0"
  shows "sort_compare cmp a c < 0"
  using assms cons_lt_tie [of cmp A a b c] cons_lt_trans [of cmp A a b c]
  by (cases "sort_compare cmp b c = 0") auto

lemma cons_le_trans:
  assumes "consistent_on cmp A" "a \<in> A" "b \<in> A" "c \<in> A"
    and "sort_compare cmp a b \<le> 0" "sort_compare cmp b c \<le> 0"
  shows "sort_compare cmp a c \<le> 0"
proof (cases "sort_compare cmp a b = 0 \<and> sort_compare cmp b c = 0")
  case True
  with cons_tie_trans [OF assms(1-4)] show ?thesis by simp
next
  case False
  then consider "sort_compare cmp a b < 0" | "sort_compare cmp b c < 0"
    using assms(5,6) by linarith
  then show ?thesis
  proof cases
    case 1
    from cons_lt_le [OF assms(1-4) 1 assms(6)] show ?thesis by simp
  next
    case 2
    from cons_le_lt [OF assms(1-4) assms(5) 2] show ?thesis by simp
  qed
qed

lemma cons_tie_apart:
  assumes "consistent_on cmp A" "a \<in> A" "x \<in> A" "y \<in> A"
    and "sort_compare cmp a x = 0" "sort_compare cmp x y < 0"
  shows "sort_compare cmp a y \<noteq> 0"
  using cons_tie_lt [OF assms] by simp

lemma consistent_on_subset: "consistent_on cmp A \<Longrightarrow> B \<subseteq> A \<Longrightarrow> consistent_on cmp B"
  unfolding consistent_on_def by (meson subsetD)

subsection \<open>The insertion sort conforms\<close>

lemma insert_at_props:
  assumes c: "consistent_on cmp A" and x: "x \<in> A" and sub: "set acc \<subseteq> A"
    and asc: "ascending cmp acc"
    and before: "\<forall>y\<in>set (take p acc). sort_compare cmp x y \<ge> 0"
    and after: "\<forall>y\<in>set (drop p acc). sort_compare cmp x y < 0"
  shows "ascending cmp (take p acc @ x # drop p acc)"
    and "\<forall>a\<in>A. filter (\<lambda>b. sort_compare cmp a b = 0) (take p acc @ x # drop p acc)
               = filter (\<lambda>b. sort_compare cmp a b = 0) acc @ (if sort_compare cmp a x = 0 then [x] else [])"
proof -
  let ?P = "\<lambda>a b. sort_compare cmp a b \<le> 0"
  have tsub: "set (take p acc) \<subseteq> A" and dsub: "set (drop p acc) \<subseteq> A"
    using sub set_take_subset set_drop_subset by fast+
  from asc have s: "sorted_wrt ?P acc"
    by (simp add: ascending_def)
  have parts: "sorted_wrt ?P (take p acc)" "sorted_wrt ?P (drop p acc)"
    "\<forall>y\<in>set (take p acc). \<forall>z\<in>set (drop p acc). ?P y z"
    using s sorted_wrt_append [of ?P "take p acc" "drop p acc"] by simp_all
  have b: "\<forall>y\<in>set (take p acc). ?P y x"
    using before cons_ge_flip [OF c x] tsub by blast
  have a: "\<forall>z\<in>set (drop p acc). ?P x z"
    using after by auto
  show "ascending cmp (take p acc @ x # drop p acc)"
    unfolding ascending_def using parts a b by (auto simp: sorted_wrt_append)
  show "\<forall>a\<in>A. filter (\<lambda>b. sort_compare cmp a b = 0) (take p acc @ x # drop p acc)
               = filter (\<lambda>b. sort_compare cmp a b = 0) acc @ (if sort_compare cmp a x = 0 then [x] else [])"
  proof
    fix a assume aA: "a \<in> A"
    let ?T = "\<lambda>b. sort_compare cmp a b = 0"
    have split: "filter ?T acc = filter ?T (take p acc) @ filter ?T (drop p acc)"
      by (metis append_take_drop_id filter_append)
    show "filter ?T (take p acc @ x # drop p acc) = filter ?T acc @ (if ?T x then [x] else [])"
    proof (cases "?T x")
      case True
      have "\<forall>y\<in>set (drop p acc). \<not> ?T y"
        using cons_tie_apart [OF c aA x _ True] after dsub by blast
      then have "filter ?T (drop p acc) = []" by (simp add: filter_empty_conv)
      with True split show ?thesis by simp
    next
      case False
      with split show ?thesis by simp
    qed
  qed
qed

lemma insert_stable_at:
  assumes c: "consistent_on cmp A" and x: "x \<in> A"
  shows "set acc \<subseteq> A \<Longrightarrow> ascending cmp acc \<Longrightarrow>
         \<exists>p. insert_stable cmp x acc = take p acc @ x # drop p acc
            \<and> (\<forall>y\<in>set (take p acc). sort_compare cmp x y \<ge> 0)
            \<and> (\<forall>y\<in>set (drop p acc). sort_compare cmp x y < 0)"
proof (induction acc)
  case Nil
  then show ?case by simp
next
  case (Cons y ys)
  from Cons.prems have y: "y \<in> A" and ys: "set ys \<subseteq> A" by auto
  from Cons.prems(2) have le: "\<forall>z\<in>set ys. sort_compare cmp y z \<le> 0" and asc: "ascending cmp ys"
    by (simp_all add: ascending_def)
  show ?case
  proof (cases "sort_compare cmp x y < 0")
    case True
    have "\<forall>z\<in>set ys. sort_compare cmp x z < 0"
      using cons_lt_le [OF c x y _ True] le ys by blast
    with True have "insert_stable cmp x (y # ys) = take 0 (y # ys) @ x # drop 0 (y # ys)
        \<and> (\<forall>z\<in>set (take 0 (y # ys)). sort_compare cmp x z \<ge> 0)
        \<and> (\<forall>z\<in>set (drop 0 (y # ys)). sort_compare cmp x z < 0)"
      by simp
    then show ?thesis by blast
  next
    case False
    from Cons.IH [OF ys asc] obtain p where p:
      "insert_stable cmp x ys = take p ys @ x # drop p ys"
      "\<forall>z\<in>set (take p ys). sort_compare cmp x z \<ge> 0"
      "\<forall>z\<in>set (drop p ys). sort_compare cmp x z < 0"
      by blast
    with False have "insert_stable cmp x (y # ys) = take (Suc p) (y # ys) @ x # drop (Suc p) (y # ys)
        \<and> (\<forall>z\<in>set (take (Suc p) (y # ys)). sort_compare cmp x z \<ge> 0)
        \<and> (\<forall>z\<in>set (drop (Suc p) (y # ys)). sort_compare cmp x z < 0)"
      by simp
    then show ?thesis by blast
  qed
qed

lemma mset_insert_stable: "mset (insert_stable cmp x ys) = add_mset x (mset ys)"
  by (induction ys) auto

lemma mset_fold_insert_stable:
  "mset (fold (insert_stable cmp) xs acc) = mset xs + mset acc"
  by (induction xs arbitrary: acc) (auto simp: mset_insert_stable)

lemma mset_stable_sort: "mset (stable_sort cmp xs) = mset xs"
  by (simp add: stable_sort_def mset_fold_insert_stable)

lemma stable_sort_snoc: "stable_sort cmp (xs @ [x]) = insert_stable cmp x (stable_sort cmp xs)"
  by (simp add: stable_sort_def)

lemma stable_sort_props:
  assumes c: "consistent_on cmp A"
  shows "set xs \<subseteq> A \<Longrightarrow>
         ascending cmp (stable_sort cmp xs)
       \<and> (\<forall>a\<in>A. filter (\<lambda>b. sort_compare cmp a b = 0) (stable_sort cmp xs)
                  = filter (\<lambda>b. sort_compare cmp a b = 0) xs)"
proof (induction xs rule: rev_induct)
  case Nil
  then show ?case by (simp add: stable_sort_def ascending_def)
next
  case (snoc x xs)
  let ?acc = "stable_sort cmp xs"
  from snoc.prems have x: "x \<in> A" and xs: "set xs \<subseteq> A" by auto
  from snoc.IH [OF xs] have asc: "ascending cmp ?acc"
    and ties: "\<forall>a\<in>A. filter (\<lambda>b. sort_compare cmp a b = 0) ?acc
                  = filter (\<lambda>b. sort_compare cmp a b = 0) xs"
    by simp_all
  have sub: "set ?acc \<subseteq> A"
    using xs mset_stable_sort [of cmp xs] by (metis set_mset_mset)
  from insert_stable_at [OF c x sub asc] obtain p where p:
    "insert_stable cmp x ?acc = take p ?acc @ x # drop p ?acc"
    "\<forall>y\<in>set (take p ?acc). sort_compare cmp x y \<ge> 0"
    "\<forall>y\<in>set (drop p ?acc). sort_compare cmp x y < 0"
    by blast
  from insert_at_props [OF c x sub asc p(2) p(3)] p(1) ties
  show ?case by (simp add: stable_sort_snoc)
qed

lemma conforming_stable_sort: "conforming (stable_sort :: 'a array_sort)"
  unfolding conforming_def ties_kept_def
proof (intro allI conjI impI)
  fix cmp :: "'a comparator" and xs
  show "mset (stable_sort cmp xs) = mset xs" by (rule mset_stable_sort)
  assume c: "consistent_on cmp (set xs)"
  from stable_sort_props [OF c, of xs]
  show "ascending cmp (stable_sort cmp xs)"
    and "\<forall>a\<in>set xs. filter (\<lambda>b. sort_compare cmp a b = 0) (stable_sort cmp xs)
                  = filter (\<lambda>b. sort_compare cmp a b = 0) xs"
    by simp_all
qed

subsection \<open>The comparators of the three sorters\<close>

lemma sign_of_neg: "sign_of (js_neg v) = - sign_of v"
  by (cases v) (auto simp: sgn_if)

lemma sort_compare_directed:
  "sort_compare (\<lambda>a b. directed direction (cmp a b)) a b
     = (if direction = ''asc'' then sort_compare cmp a b else - sort_compare cmp a b)"
  by (simp add: sort_compare_def directed_def sign_of_neg)

lemma consistent_onI:
  assumes "\<And>a. a \<in> A \<Longrightarrow> sort_compare cmp a a = 0"
    and "\<And>a b. a \<in> A \<Longrightarrow> b \<in> A \<Longrightarrow> sort_compare cmp a b = 0 \<Longrightarrow> sort_compare cmp b a = 0"
    and "\<And>a b c. a \<in> A \<Longrightarrow> b \<in> A \<Longrightarrow> c \<in> A \<Longrightarrow> sort_compare cmp a b = 0 \<Longrightarrow>
            sort_compare cmp b c = 0 \<Longrightarrow> sort_compare cmp a c = 0"
    and "\<And>a b c. a \<in> A \<Longrightarrow> b \<in> A \<Longrightarrow> c \<in> A \<Longrightarrow> sort_compare cmp a b < 0 \<Longrightarrow>
            sort_compare cmp b c < 0 \<Longrightarrow> sort_compare cmp a c < 0"
    and "\<And>a b c. a \<in> A \<Longrightarrow> b \<in> A \<Longrightarrow> c \<in> A \<Longrightarrow> sort_compare cmp a b > 0 \<Longrightarrow>
            sort_compare cmp b c > 0 \<Longrightarrow> sort_compare cmp a c > 0"
  shows "consistent_on cmp A"
  unfolding consistent_on_def using assms by blast

lemma consistent_directed:
  assumes c: "consistent_on cmp A"
  shows "consistent_on (\<lambda>a b. directed direction (cmp a b)) A"
proof (cases "direction = ''asc''")
  case True
  then have "(\<lambda>a b. directed direction (cmp a b)) = cmp"
    by (simp add: directed_def)
  with c show ?thesis by simp
next
  case False
  have sc: "\<And>a b. sort_compare (\<lambda>a b. directed direction (cmp a b)) a b = - sort_compare cmp a b"
    using False by (simp add: sort_compare_directed)
  show ?thesis
  proof (rule consistent_onI)
    fix a assume "a \<in> A"
    then show "sort_compare (\<lambda>a b. directed direction (cmp a b)) a a = 0"
      using cons_refl [OF c] by (simp add: sc)
  next
    fix a b assume "a \<in> A" "b \<in> A" "sort_compare (\<lambda>a b. directed direction (cmp a b)) a b = 0"
    then show "sort_compare (\<lambda>a b. directed direction (cmp a b)) b a = 0"
      using cons_sym [OF c, of a b] by (simp add: sc)
  next
    fix a b d assume "a \<in> A" "b \<in> A" "d \<in> A"
      "sort_compare (\<lambda>a b. directed direction (cmp a b)) a b = 0"
      "sort_compare (\<lambda>a b. directed direction (cmp a b)) b d = 0"
    then show "sort_compare (\<lambda>a b. directed direction (cmp a b)) a d = 0"
      using cons_tie_trans [OF c, of a b d] by (simp add: sc)
  next
    fix a b d assume "a \<in> A" "b \<in> A" "d \<in> A"
      "sort_compare (\<lambda>a b. directed direction (cmp a b)) a b < 0"
      "sort_compare (\<lambda>a b. directed direction (cmp a b)) b d < 0"
    then show "sort_compare (\<lambda>a b. directed direction (cmp a b)) a d < 0"
      using cons_gt_trans [OF c, of a b d] by (simp add: sc)
  next
    fix a b d assume "a \<in> A" "b \<in> A" "d \<in> A"
      "sort_compare (\<lambda>a b. directed direction (cmp a b)) a b > 0"
      "sort_compare (\<lambda>a b. directed direction (cmp a b)) b d > 0"
    then show "sort_compare (\<lambda>a b. directed direction (cmp a b)) a d > 0"
      using cons_lt_trans [OF c, of a b d] by (simp add: sc)
  qed
qed

lemma sign_js_sub_zero: "x \<noteq> NaN \<Longrightarrow> y \<noteq> NaN \<Longrightarrow> sign_of (js_sub x y) = 0 \<longleftrightarrow> x = y"
  by (cases x; cases y) (auto simp: sgn_if)

lemma sign_js_sub_lt_trans:
  "x \<noteq> NaN \<Longrightarrow> y \<noteq> NaN \<Longrightarrow> z \<noteq> NaN \<Longrightarrow>
   sign_of (js_sub x y) < 0 \<Longrightarrow> sign_of (js_sub y z) < 0 \<Longrightarrow> sign_of (js_sub x z) < 0"
  by (cases x; cases y; cases z) (auto simp: sgn_if split: if_splits)

lemma sign_js_sub_gt_trans:
  "x \<noteq> NaN \<Longrightarrow> y \<noteq> NaN \<Longrightarrow> z \<noteq> NaN \<Longrightarrow>
   sign_of (js_sub x y) > 0 \<Longrightarrow> sign_of (js_sub y z) > 0 \<Longrightarrow> sign_of (js_sub x z) > 0"
  by (cases x; cases y; cases z) (auto simp: sgn_if split: if_splits)

lemma consistent_js_sub: "consistent_on js_sub {x. x \<noteq> NaN}"
proof (rule consistent_onI)
  fix a b c :: jsnum
  assume "a \<in> {x. x \<noteq> NaN}" "b \<in> {x. x \<noteq> NaN}" "c \<in> {x. x \<noteq> NaN}"
  then have n: "a \<noteq> NaN" "b \<noteq> NaN" "c \<noteq> NaN" by simp_all
  show "sort_compare js_sub a a = 0"
    using n by (simp add: sort_compare_def sign_js_sub_zero)
  show "sort_compare js_sub a b = 0 \<Longrightarrow> sort_compare js_sub b a = 0"
    using n by (simp add: sort_compare_def sign_js_sub_zero)
  show "sort_compare js_sub a b = 0 \<Longrightarrow> sort_compare js_sub b c = 0 \<Longrightarrow> sort_compare js_sub a c = 0"
    using n by (simp add: sort_compare_def sign_js_sub_zero)
  show "sort_compare js_sub a b < 0 \<Longrightarrow> sort_compare js_sub b c < 0 \<Longrightarrow> sort_compare js_sub a c < 0"
    using n sign_js_sub_lt_trans [of a b c] by (simp add: sort_compare_def)
  show "sort_compare js_sub a b > 0 \<Longrightarrow> sort_compare js_sub b c > 0 \<Longrightarrow> sort_compare js_sub a c > 0"
    using n sign_js_sub_gt_trans [of a b c] by (simp add: sort_compare_def)
qed

lemma consistent_pullback:
  assumes c: "consistent_on cmp (k ` A)"
  shows "consistent_on (\<lambda>a b. cmp (k a) (k b)) A"
proof -
  have sc: "\<And>a b. sort_compare (\<lambda>a b. cmp (k a) (k b)) a b = sort_compare cmp (k a) (k b)"
    by (simp add: sort_compare_def)
  show ?thesis
  proof (rule consistent_onI)
    fix a b d assume "a \<in> A" "b \<in> A" "d \<in> A"
    then have m: "k a \<in> k ` A" "k b \<in> k ` A" "k d \<in> k ` A" by simp_all
    show "sort_compare (\<lambda>a b. cmp (k a) (k b)) a a = 0"
      unfolding sc using cons_refl [OF c m(1)] .
    show "sort_compare (\<lambda>a b. cmp (k a) (k b)) a b = 0 \<Longrightarrow> sort_compare (\<lambda>a b. cmp (k a) (k b)) b a = 0"
      unfolding sc using cons_sym [OF c m(1) m(2)] .
    show "sort_compare (\<lambda>a b. cmp (k a) (k b)) a b = 0 \<Longrightarrow> sort_compare (\<lambda>a b. cmp (k a) (k b)) b d = 0
       \<Longrightarrow> sort_compare (\<lambda>a b. cmp (k a) (k b)) a d = 0"
      unfolding sc using cons_tie_trans [OF c m] .
    show "sort_compare (\<lambda>a b. cmp (k a) (k b)) a b < 0 \<Longrightarrow> sort_compare (\<lambda>a b. cmp (k a) (k b)) b d < 0
       \<Longrightarrow> sort_compare (\<lambda>a b. cmp (k a) (k b)) a d < 0"
      unfolding sc using cons_lt_trans [OF c m] .
    show "sort_compare (\<lambda>a b. cmp (k a) (k b)) a b > 0 \<Longrightarrow> sort_compare (\<lambda>a b. cmp (k a) (k b)) b d > 0
       \<Longrightarrow> sort_compare (\<lambda>a b. cmp (k a) (k b)) a d > 0"
      unfolding sc using cons_gt_trans [OF c m] .
  qed
qed

lemma numeric_key_not_nan: "numeric_key str_num column a \<noteq> NaN"
  by (cases "to_number str_num (field a column)") (simp_all add: numeric_key_def Let_def)

lemma consistent_numeric: "consistent_on (numeric_compare str_num column direction) A"
proof -
  have "consistent_on js_sub (numeric_key str_num column ` A)"
    by (rule consistent_on_subset [OF consistent_js_sub]) (auto simp: numeric_key_not_nan)
  then have "consistent_on (\<lambda>a b. js_sub (numeric_key str_num column a) (numeric_key str_num column b)) A"
    by (rule consistent_pullback)
  then have "consistent_on (\<lambda>a b. directed direction (js_sub (numeric_key str_num column a) (numeric_key str_num column b))) A"
    by (rule consistent_directed)
  moreover have "numeric_compare str_num column direction
     = (\<lambda>a b. directed direction (js_sub (numeric_key str_num column a) (numeric_key str_num column b)))"
    by (simp add: fun_eq_iff numeric_compare_def Let_def)
  ultimately show ?thesis by simp
qed

lemma consistent_date:
  assumes "\<forall>r\<in>A. date_key parse column r \<noteq> NaN"
  shows "consistent_on (date_compare parse column direction) A"
proof -
  have "consistent_on js_sub (date_key parse column ` A)"
    by (rule consistent_on_subset [OF consistent_js_sub]) (use assms in auto)
  then have "consistent_on (\<lambda>a b. js_sub (date_key parse column a) (date_key parse column b)) A"
    by (rule consistent_pullback)
  then have "consistent_on (\<lambda>a b. directed direction (js_sub (date_key parse column a) (date_key parse column b))) A"
    by (rule consistent_directed)
  moreover have "date_compare parse column direction
     = (\<lambda>a b. directed direction (js_sub (date_key parse column a) (date_key parse column b)))"
    by (simp add: fun_eq_iff date_compare_def Let_def)
  ultimately show ?thesis by simp
qed

lemma consistent_alphabetic:
  assumes "consistent_on (\<lambda>a b. Num (localeCompare a b)) UNIV"
  shows "consistent_on (alphabetic_compare localeCompare column direction) A"
proof -
  have "consistent_on (\<lambda>a b. Num (localeCompare a b)) (alphabetic_key column ` A)"
    by (rule consistent_on_subset [OF assms]) simp
  then have "consistent_on (\<lambda>a b. Num (localeCompare (alphabetic_key column a) (alphabetic_key column b))) A"
    by (rule consistent_pullback)
  then have "consistent_on (\<lambda>a b. directed direction (Num (localeCompare (alphabetic_key column a) (alphabetic_key column b)))) A"
    by (rule consistent_directed)
  moreover have "alphabetic_compare localeCompare column direction
     = (\<lambda>a b. directed direction (Num (localeCompare (alphabetic_key column a) (alphabetic_key column b))))"
    by (simp add: fun_eq_iff alphabetic_compare_def Let_def)
  ultimately show ?thesis by simp
qed

lemma tie_numeric:
  "sort_compare (numeric_compare str_num column direction) a b = 0
     \<longleftrightarrow> numeric_key str_num column a = numeric_key str_num column b"
  by (simp add: sort_compare_def numeric_compare_def Let_def directed_def sign_of_neg
      sign_js_sub_zero numeric_key_not_nan)

lemma tie_date:
  "date_key parse column a \<noteq> NaN \<Longrightarrow> date_key parse column b \<noteq> NaN \<Longrightarrow>
   sort_compare (date_compare parse column direction) a b = 0
     \<longleftrightarrow> date_key parse column a = date_key parse column b"
  by (simp add: sort_compare_def date_compare_def Let_def directed_def sign_of_neg sign_js_sub_zero)

lemma tie_alphabetic:
  "sort_compare (alphabetic_compare localeCompare column direction) a b = 0
     \<longleftrightarrow> localeCompare (alphabetic_key column a) (alphabetic_key column b) = 0"
  by (simp add: sort_compare_def alphabetic_compare_def Let_def directed_def sgn_if)

lemma ties_kept_by_key:
  assumes m: "mset ys = mset xs" and t: "ties_kept cmp xs ys"
    and k: "\<And>a b. a \<in> set xs \<Longrightarrow> b \<in> set xs \<Longrightarrow> (sort_compare cmp a b = 0) = (key a = key b)"
  shows "filter (\<lambda>b. key b = v) ys = filter (\<lambda>b. key b = v) xs"
proof -
  from m have s: "set ys = set xs" by (metis set_mset_mset)
  show ?thesis
  proof (cases "\<exists>a\<in>set xs. key a = v")
    case True
    then obtain a where a: "a \<in> set xs" "key a = v" by blast
    have "filter (\<lambda>b. key b = v) ys = filter (\<lambda>b. sort_compare cmp a b = 0) ys"
      by (rule filter_cong) (use a k s in auto)
    also have "\<dots> = filter (\<lambda>b. sort_compare cmp a b = 0) xs"
      using t a(1) by (simp add: ties_kept_def)
    also have "\<dots> = filter (\<lambda>b. key b = v) xs"
      by (rule filter_cong) (use a k in auto)
    finally show ?thesis .
  next
    case False
    then have "filter (\<lambda>b. key b = v) xs = []" "filter (\<lambda>b. key b = v) ys = []"
      using s by (auto simp: filter_empty_conv)
    then show ?thesis by simp
  qed
qed

text \<open>
  The three sorters keep records of equal sort key in their input order, whatever the
  direction, on every host sort that conforms: the numeric sorter on every input, the
  chronological one when no record has a \<open>NaN\<close> timestamp, the alphabetic one for a
  collation that is itself consistent.
\<close>

lemma sorters_stable:
  assumes "conforming srt"
  shows "filter (\<lambda>r. numeric_key str_num column r = v) (NumericSortStrategy srt str_num rows column direction)
           = filter (\<lambda>r. numeric_key str_num column r = v) rows"
    and "(\<forall>r\<in>set rows. date_key parse column r \<noteq> NaN) \<longrightarrow>
         filter (\<lambda>r. date_key parse column r = v) (DateSortStrategy srt parse rows column direction)
           = filter (\<lambda>r. date_key parse column r = v) rows"
    and "consistent_on (\<lambda>a b. Num (localeCompare a b)) UNIV \<longrightarrow>
         (\<forall>a\<in>set rows.
            filter (\<lambda>r. localeCompare (alphabetic_key column a) (alphabetic_key column r) = 0)
                   (AlphabeticSortStrategy srt localeCompare rows column direction)
              = filter (\<lambda>r. localeCompare (alphabetic_key column a) (alphabetic_key column r) = 0) rows)"
proof -
  from assms have c: "\<And>cmp xs. mset (srt cmp xs) = mset xs"
    "\<And>cmp xs. consistent_on cmp (set xs) \<Longrightarrow> ties_kept cmp xs (srt cmp xs)"
    unfolding conforming_def by blast+
  show "filter (\<lambda>r. numeric_key str_num column r = v) (NumericSortStrategy srt str_num rows column direction)
           = filter (\<lambda>r. numeric_key str_num column r = v) rows"
    unfolding NumericSortStrategy_def
    by (rule ties_kept_by_key [OF c(1) c(2) [OF consistent_numeric]]) (rule tie_numeric)
  show "(\<forall>r\<in>set rows. date_key parse column r \<noteq> NaN) \<longrightarrow>
         filter (\<lambda>r. date_key parse column r = v) (DateSortStrategy srt parse rows column direction)
           = filter (\<lambda>r. date_key parse column r = v) rows"
  proof
    assume v: "\<forall>r\<in>set rows. date_key parse column r \<noteq> NaN"
    show "filter (\<lambda>r. date_key parse column r = v) (DateSortStrategy srt parse rows column direction)
           = filter (\<lambda>r. date_key parse column r = v) rows"
      unfolding DateSortStrategy_def
      by (rule ties_kept_by_key [OF c(1) c(2) [OF consistent_date [OF v]]]) (use v tie_date in blast)
  qed
  show "consistent_on (\<lambda>a b. Num (localeCompare a b)) UNIV \<longrightarrow>
         (\<forall>a\<in>set rows.
            filter (\<lambda>r. localeCompare (alphabetic_key column a) (alphabetic_key column r) = 0)
                   (AlphabeticSortStrategy srt localeCompare rows column direction)
              = filter (\<lambda>r. localeCompare (alphabetic_key column a) (alphabetic_key column r) = 0) rows)"
  proof (intro impI ballI)
    fix a assume l: "consistent_on (\<lambda>a b. Num (localeCompare a b)) UNIV" and a: "a \<in> set rows"
    from c(2) [OF consistent_alphabetic [OF l, of column direction "set rows"]] a
    show "filter (\<lambda>r. localeCompare (alphabetic_key column a) (alphabetic_key column r) = 0)
                   (AlphabeticSortStrategy srt localeCompare rows column direction)
              = filter (\<lambda>r. localeCompare (alphabetic_key column a) (alphabetic_key column r) = 0) rows"
      unfolding AlphabeticSortStrategy_def ties_kept_def tie_alphabetic by blast
  qed
qed

text \<open>The hypotheses can be met: the insertion sort conforms, and the character collation
  is consistent.\<close>

lemma code_compare_flip: "code_compare b a = - code_compare a b"
  by (induction a b rule: code_compare.induct) auto

lemma code_compare_zero: "code_compare a b = 0 \<longleftrightarrow> a = b"
  by (induction a b rule: code_compare.induct) auto

lemma code_compare_lt_trans:
  "code_compare a b < 0 \<Longrightarrow> code_compare b c < 0 \<Longrightarrow> code_compare a c < 0"
proof (induction a b arbitrary: c rule: code_compare.induct)
  case 1
  then show ?case by simp
next
  case (2 b bs)
  then show ?case by (cases c) (auto split: if_splits)
next
  case (3 a as)
  then show ?case by simp
next
  case (4 a as b bs)
  show ?case
  proof (cases c)
    case Nil
    with "4.prems" show ?thesis by simp
  next
    case (Cons d ds)
    with "4.prems" "4.IH" [of ds] show ?thesis
      by (auto split: if_splits)
  qed
qed

lemma consistent_code_compare: "consistent_on (\<lambda>a b. Num (code_compare a b)) UNIV"
proof (rule consistent_onI)
  fix a b c :: string
  have sc: "\<And>a b. sort_compare (\<lambda>a b. Num (code_compare a b)) a b = sgn (code_compare a b)"
    by (simp add: sort_compare_def)
  show "sort_compare (\<lambda>a b. Num (code_compare a b)) a a = 0"
    by (simp add: sc code_compare_zero sgn_if split: if_splits)
  show "sort_compare (\<lambda>a b. Num (code_compare a b)) a b = 0
      \<Longrightarrow> sort_compare (\<lambda>a b. Num (code_compare a b)) b a = 0"
    by (simp add: sc code_compare_zero sgn_if split: if_splits)
  show "sort_compare (\<lambda>a b. Num (code_compare a b)) a b = 0
      \<Longrightarrow> sort_compare (\<lambda>a b. Num (code_compare a b)) b c = 0
      \<Longrightarrow> sort_compare (\<lambda>a b. Num (code_compare a b)) a c = 0"
    by (simp add: sc code_compare_zero sgn_if split: if_splits)
  show "sort_compare (\<lambda>a b. Num (code_compare a b)) a b < 0
      \<Longrightarrow> sort_compare (\<lambda>a b. Num (code_compare a b)) b c < 0
      \<Longrightarrow> sort_compare (\<lambda>a b. Num (code_compare a b)) a c < 0"
    using code_compare_lt_trans [of a b c] by (simp add: sc)
  show "sort_compare (\<lambda>a b. Num (code_compare a b)) a b > 0
      \<Longrightarrow> sort_compare (\<lambda>a b. Num (code_compare a b)) b c > 0
      \<Longrightarrow> sort_compare (\<lambda>a b. Num (code_compare a b)) a c > 0"
    using code_compare_lt_trans [of c b a] code_compare_flip [of a b] code_compare_flip [of b c]
      code_compare_flip [of a c]
    by (simp add: sc)
qed

lemma alphabetic_stable_example:
  "\<forall>a\<in>set rows.
     filter (\<lambda>r. code_compare (alphabetic_key column a) (alphabetic_key column r) = 0)
            (AlphabeticSortStrategy stable_sort code_compare rows column direction)
       = filter (\<lambda>r. code_compare (alphabetic_key column a) (alphabetic_key column r) = 0) rows"
  using sorters_stable(3) [OF conforming_stable_sort] consistent_code_compare by blast

subsection \<open>The run and binary insertion sort conforms\<close>

lemma ascending_nth:
  "ascending cmp work \<Longrightarrow> i < j \<Longrightarrow> j < length work \<Longrightarrow> sort_compare cmp (work ! i) (work ! j) \<le> 0"
  unfolding ascending_def by (rule sorted_wrt_nth_less)

lemma binary_search_props:
  "consistent_on cmp A \<Longrightarrow> pivot \<in> A \<Longrightarrow> set work \<subseteq> A \<Longrightarrow> ascending cmp work \<Longrightarrow>
     left \<le> right \<Longrightarrow> right \<le> length work \<Longrightarrow>
     (\<forall>i<left. sort_compare cmp pivot (work ! i) \<ge> 0) \<Longrightarrow>
     (\<forall>i. right \<le> i \<and> i < length work \<longrightarrow> sort_compare cmp pivot (work ! i) < 0) \<Longrightarrow>
     binary_search cmp pivot work left right \<le> length work
     \<and> (\<forall>i<binary_search cmp pivot work left right. sort_compare cmp pivot (work ! i) \<ge> 0)
     \<and> (\<forall>i. binary_search cmp pivot work left right \<le> i \<and> i < length work
            \<longrightarrow> sort_compare cmp pivot (work ! i) < 0)"
proof (induction cmp pivot work left right rule: binary_search.induct)
  case (1 cmp pivot work left right)
  note c = "1.prems"(1) and x = "1.prems"(2) and sub = "1.prems"(3) and asc = "1.prems"(4)
  show ?case
  proof (cases "left < right")
    case False
    then have b: "binary_search cmp pivot work left right = left"
      by (simp add: binary_search.simps [of cmp pivot work left right])
    from False "1.prems"(5) have "left = right" by simp
    with "1.prems"(6,7,8) show ?thesis
      unfolding b by simp
  next
    case True
    define mid where "mid = left + (right - left) div 2"
    from True have mid: "left \<le> mid" "mid < right" by (simp_all add: mid_def)
    with "1.prems"(6) have ml: "mid < length work" by simp
    then have mA: "work ! mid \<in> A" using sub by auto
    show ?thesis
    proof (cases "sort_compare cmp pivot (work ! mid) < 0")
      case less: True
      have "\<forall>i. mid \<le> i \<and> i < length work \<longrightarrow> sort_compare cmp pivot (work ! i) < 0"
      proof (intro allI impI)
        fix i assume i: "mid \<le> i \<and> i < length work"
        show "sort_compare cmp pivot (work ! i) < 0"
        proof (cases "i = mid")
          case True
          with less show ?thesis by simp
        next
          case False
          with i have "mid < i" by simp
          from ascending_nth [OF asc this] i
          have "sort_compare cmp (work ! mid) (work ! i) \<le> 0" by simp
          moreover have "work ! i \<in> A" using sub i by auto
          ultimately show ?thesis using cons_lt_le [OF c x mA _ less] by blast
        qed
      qed
      with "1.IH"(1) [OF True mid_def refl less c x sub asc] mid "1.prems"(6,7) ml
      have "binary_search cmp pivot work left mid \<le> length work
         \<and> (\<forall>i<binary_search cmp pivot work left mid. sort_compare cmp pivot (work ! i) \<ge> 0)
         \<and> (\<forall>i. binary_search cmp pivot work left mid \<le> i \<and> i < length work
            \<longrightarrow> sort_compare cmp pivot (work ! i) < 0)"
        by simp
      moreover have "binary_search cmp pivot work left right = binary_search cmp pivot work left mid"
        using True less by (simp add: binary_search.simps [of cmp pivot work left right] mid_def Let_def)
      ultimately show ?thesis by simp
    next
      case nl: False
      then have ge: "sort_compare cmp pivot (work ! mid) \<ge> 0" by simp
      from cons_ge_flip [OF c x mA ge] have le: "sort_compare cmp (work ! mid) pivot \<le> 0" .
      have "\<forall>i<mid + 1. sort_compare cmp pivot (work ! i) \<ge> 0"
      proof (intro allI impI)
        fix i assume i: "i < mid + 1"
        show "sort_compare cmp pivot (work ! i) \<ge> 0"
        proof (cases "i = mid")
          case True
          with ge show ?thesis by simp
        next
          case False
          with i have im: "i < mid" by simp
          from ascending_nth [OF asc im ml]
          have "sort_compare cmp (work ! i) (work ! mid) \<le> 0" .
          moreover have iA: "work ! i \<in> A" using sub im ml by auto
          ultimately have "sort_compare cmp (work ! i) pivot \<le> 0"
            using cons_le_trans [OF c iA mA x _ le] by blast
          then show ?thesis
            using cons_flip_lt [OF c x iA] by force
        qed
      qed
      with "1.IH"(2) [OF True mid_def refl nl c x sub asc] mid "1.prems"(6,8)
      have "binary_search cmp pivot work (mid + 1) right \<le> length work
         \<and> (\<forall>i<binary_search cmp pivot work (mid + 1) right. sort_compare cmp pivot (work ! i) \<ge> 0)
         \<and> (\<forall>i. binary_search cmp pivot work (mid + 1) right \<le> i \<and> i < length work
            \<longrightarrow> sort_compare cmp pivot (work ! i) < 0)"
        by simp
      moreover have "binary_search cmp pivot work left right = binary_search cmp pivot work (mid + 1) right"
        using True nl by (simp add: binary_search.simps [of cmp pivot work left right] mid_def Let_def)
      ultimately show ?thesis by simp
    qed
  qed
qed

lemma binary_insert_props:
  assumes c: "consistent_on cmp A" and x: "pivot \<in> A" and sub: "set work \<subseteq> A"
    and asc: "ascending cmp work"
  shows "ascending cmp (binary_insert cmp pivot work)"
    and "\<forall>a\<in>A. filter (\<lambda>b. sort_compare cmp a b = 0) (binary_insert cmp pivot work)
               = filter (\<lambda>b. sort_compare cmp a b = 0) work
                 @ (if sort_compare cmp a pivot = 0 then [pivot] else [])"
proof -
  let ?p = "binary_search cmp pivot work 0 (length work)"
  from binary_search_props [OF c x sub asc, of 0 "length work"]
  have p: "?p \<le> length work" "\<forall>i<?p. sort_compare cmp pivot (work ! i) \<ge> 0"
    "\<forall>i. ?p \<le> i \<and> i < length work \<longrightarrow> sort_compare cmp pivot (work ! i) < 0"
    by simp_all
  have before: "\<forall>y\<in>set (take ?p work). sort_compare cmp pivot y \<ge> 0"
  proof
    fix y assume "y \<in> set (take ?p work)"
    then obtain i where "i < length (take ?p work)" "take ?p work ! i = y"
      by (auto simp: in_set_conv_nth)
    with p(1,2) show "sort_compare cmp pivot y \<ge> 0" by auto
  qed
  have after: "\<forall>y\<in>set (drop ?p work). sort_compare cmp pivot y < 0"
  proof
    fix y assume "y \<in> set (drop ?p work)"
    then obtain i where "i < length (drop ?p work)" "drop ?p work ! i = y"
      by (auto simp: in_set_conv_nth)
    with p(1,3) show "sort_compare cmp pivot y < 0" by auto
  qed
  show "ascending cmp (binary_insert cmp pivot work)"
    unfolding binary_insert_def Let_def
    by (rule insert_at_props(1) [OF c x sub asc before after])
  show "\<forall>a\<in>A. filter (\<lambda>b. sort_compare cmp a b = 0) (binary_insert cmp pivot work)
               = filter (\<lambda>b. sort_compare cmp a b = 0) work
                 @ (if sort_compare cmp a pivot = 0 then [pivot] else [])"
    unfolding binary_insert_def Let_def
    by (rule insert_at_props(2) [OF c x sub asc before after])
qed

lemma mset_binary_insert: "mset (binary_insert cmp pivot work) = add_mset pivot (mset work)"
proof -
  have "mset (take n work) + mset (drop n work) = mset work" for n
    by (metis append_take_drop_id mset_append)
  then show ?thesis by (simp add: binary_insert_def Let_def)
qed

lemma mset_fold_binary_insert:
  "mset (fold (binary_insert cmp) rest acc) = mset acc + mset rest"
  by (induction rest arbitrary: acc) (auto simp: mset_binary_insert)

lemma fold_binary_insert_props:
  assumes c: "consistent_on cmp A"
  shows "set rest \<subseteq> A \<Longrightarrow> set acc \<subseteq> A \<Longrightarrow> ascending cmp acc \<Longrightarrow>
     ascending cmp (fold (binary_insert cmp) rest acc)
     \<and> (\<forall>a\<in>A. filter (\<lambda>b. sort_compare cmp a b = 0) (fold (binary_insert cmp) rest acc)
               = filter (\<lambda>b. sort_compare cmp a b = 0) (acc @ rest))"
proof (induction rest arbitrary: acc)
  case Nil
  then show ?case by simp
next
  case (Cons x rest)
  from Cons.prems have x: "x \<in> A" and rest: "set rest \<subseteq> A" by auto
  let ?acc = "binary_insert cmp x acc"
  from binary_insert_props [OF c x Cons.prems(2,3)]
  have asc: "ascending cmp ?acc"
    and ties: "\<forall>a\<in>A. filter (\<lambda>b. sort_compare cmp a b = 0) ?acc
               = filter (\<lambda>b. sort_compare cmp a b = 0) acc
                 @ (if sort_compare cmp a x = 0 then [x] else [])"
    by simp_all
  have sub: "set ?acc \<subseteq> A"
    using x Cons.prems(2) mset_binary_insert [of cmp x acc]
    by (metis insert_subset set_mset_add_mset_insert set_mset_mset)
  from Cons.IH [OF rest sub asc] ties show ?case by simp
qed

lemma ascending_run:
  assumes c: "consistent_on cmp A"
  shows "prev \<in> A \<Longrightarrow> set rest \<subseteq> A \<Longrightarrow>
         ascending cmp (prev # take (run_more cmp False prev rest) rest)"
proof (induction rest arbitrary: prev)
  case Nil
  then show ?case by (simp add: ascending_def)
next
  case (Cons cur rest)
  from Cons.prems have cur: "cur \<in> A" and rest: "set rest \<subseteq> A" by auto
  show ?case
  proof (cases "sort_compare cmp cur prev < 0")
    case True
    then show ?thesis by (simp add: ascending_def)
  next
    case False
    then have "sort_compare cmp cur prev \<ge> 0" by simp
    from cons_ge_flip [OF c cur Cons.prems(1) this] have le: "sort_compare cmp prev cur \<le> 0" .
    let ?t = "take (run_more cmp False cur rest) rest"
    from Cons.IH [OF cur rest] have asc: "ascending cmp (cur # ?t)" .
    then have "\<forall>z\<in>set ?t. sort_compare cmp cur z \<le> 0"
      by (simp add: ascending_def)
    moreover have "set ?t \<subseteq> A" using rest set_take_subset by fast
    ultimately have "\<forall>z\<in>set ?t. sort_compare cmp prev z \<le> 0"
      using cons_le_trans [OF c Cons.prems(1) cur _ le] by blast
    with le asc False show ?thesis by (simp add: ascending_def)
  qed
qed

lemma descending_run:
  assumes c: "consistent_on cmp A"
  shows "prev \<in> A \<Longrightarrow> set rest \<subseteq> A \<Longrightarrow>
         sorted_wrt (\<lambda>x y. sort_compare cmp y x < 0) (prev # take (run_more cmp True prev rest) rest)"
proof (induction rest arbitrary: prev)
  case Nil
  then show ?case by simp
next
  case (Cons cur rest)
  from Cons.prems have cur: "cur \<in> A" and rest: "set rest \<subseteq> A" by auto
  show ?case
  proof (cases "sort_compare cmp cur prev \<ge> 0")
    case True
    then show ?thesis by simp
  next
    case False
    then have lt: "sort_compare cmp cur prev < 0" by simp
    let ?t = "take (run_more cmp True cur rest) rest"
    from Cons.IH [OF cur rest] have d: "sorted_wrt (\<lambda>x y. sort_compare cmp y x < 0) (cur # ?t)" .
    then have "\<forall>z\<in>set ?t. sort_compare cmp z cur < 0" by simp
    moreover have tA: "set ?t \<subseteq> A" using rest set_take_subset by fast
    ultimately have "\<forall>z\<in>set ?t. sort_compare cmp z prev < 0"
      using cons_lt_trans [OF c _ cur Cons.prems(1) _ lt] by blast
    with lt d False show ?thesis by simp
  qed
qed

lemma descending_ties_short:
  assumes c: "consistent_on cmp A" and a: "a \<in> A"
  shows "set xs \<subseteq> A \<Longrightarrow> sorted_wrt (\<lambda>x y. sort_compare cmp y x < 0) xs \<Longrightarrow>
         length (filter (\<lambda>b. sort_compare cmp a b = 0) xs) \<le> 1"
proof (induction xs)
  case Nil
  then show ?case by simp
next
  case (Cons x xs)
  from Cons.prems have x: "x \<in> A" and xs: "set xs \<subseteq> A"
    and below: "\<forall>y\<in>set xs. sort_compare cmp y x < 0"
    and d: "sorted_wrt (\<lambda>x y. sort_compare cmp y x < 0) xs"
    by auto
  show ?case
  proof (cases "sort_compare cmp a x = 0")
    case True
    have "\<forall>y\<in>set xs. sort_compare cmp a y \<noteq> 0"
    proof
      fix y assume y: "y \<in> set xs"
      show "sort_compare cmp a y \<noteq> 0"
      proof
        assume t: "sort_compare cmp a y = 0"
        from y xs have yA: "y \<in> A" by auto
        from cons_tie_lt [OF c a yA x t] below y have "sort_compare cmp a x < 0" by simp
        with True show False by simp
      qed
    qed
    then have "filter (\<lambda>b. sort_compare cmp a b = 0) xs = []"
      by (simp add: filter_empty_conv)
    with True show ?thesis by simp
  next
    case False
    with Cons.IH [OF xs d] show ?thesis by simp
  qed
qed

lemma rev_short: "length xs \<le> 1 \<Longrightarrow> rev xs = xs"
  by (cases xs) auto

lemma count_and_make_run_props:
  assumes c: "consistent_on cmp A" and sub: "set xs \<subseteq> A"
    and r: "count_and_make_run cmp xs = (sorted_run, rest)"
  shows "ascending cmp sorted_run"
    and "\<forall>a\<in>A. filter (\<lambda>b. sort_compare cmp a b = 0) (sorted_run @ rest)
               = filter (\<lambda>b. sort_compare cmp a b = 0) xs"
proof -
  have "ascending cmp sorted_run
     \<and> (\<forall>a\<in>A. filter (\<lambda>b. sort_compare cmp a b = 0) (sorted_run @ rest)
               = filter (\<lambda>b. sort_compare cmp a b = 0) xs)"
  proof (cases xs)
    case Nil
    with r show ?thesis by (simp add: count_and_make_run_def ascending_def)
  next
    case (Cons hi t)
    show ?thesis
    proof (cases t)
      case Nil
      with Cons r have "sorted_run = [hi]" "rest = []" "xs = [hi]"
        by (auto simp: count_and_make_run_def)
      then show ?thesis by (simp add: ascending_def)
    next
      case (Cons lo more)
      with \<open>xs = hi # t\<close> have xs: "xs = hi # lo # more" by simp
      with sub have hi: "hi \<in> A" and t: "set (lo # more) \<subseteq> A" by auto
      show ?thesis
      proof (cases "sort_compare cmp lo hi < 0")
        case True
        let ?n = "2 + run_more cmp True lo more"
        from True have n: "take ?n xs = hi # take (run_more cmp True hi (lo # more)) (lo # more)"
          by (simp add: xs)
        from r True xs have sr: "sorted_run = rev (take ?n xs)" and rest: "rest = drop ?n xs"
          by (simp_all add: count_and_make_run_def Let_def)
        from descending_run [OF c hi t] n
        have d: "sorted_wrt (\<lambda>x y. sort_compare cmp y x < 0) (take ?n xs)" by simp
        then have "sorted_wrt (\<lambda>x y. sort_compare cmp x y < 0) (rev (take ?n xs))"
          by (simp add: sorted_wrt_rev)
        then have asc: "ascending cmp sorted_run"
          unfolding ascending_def sr by (rule sorted_wrt_mono_rel [rotated]) simp
        have tA: "set (take ?n xs) \<subseteq> A" using sub set_take_subset by fast
        have "\<forall>a\<in>A. filter (\<lambda>b. sort_compare cmp a b = 0) (rev (take ?n xs))
                 = filter (\<lambda>b. sort_compare cmp a b = 0) (take ?n xs)"
        proof
          fix a assume a: "a \<in> A"
          from descending_ties_short [OF c a tA d]
          have "rev (filter (\<lambda>b. sort_compare cmp a b = 0) (take ?n xs))
              = filter (\<lambda>b. sort_compare cmp a b = 0) (take ?n xs)"
            by (rule rev_short)
          then show "filter (\<lambda>b. sort_compare cmp a b = 0) (rev (take ?n xs))
                 = filter (\<lambda>b. sort_compare cmp a b = 0) (take ?n xs)"
            by (simp add: rev_filter)
        qed
        then have "\<forall>a\<in>A. filter (\<lambda>b. sort_compare cmp a b = 0) (sorted_run @ rest)
               = filter (\<lambda>b. sort_compare cmp a b = 0) (take ?n xs @ drop ?n xs)"
          unfolding sr rest by (simp del: append_take_drop_id)
        with asc show ?thesis by simp
      next
        case False
        let ?n = "2 + run_more cmp False lo more"
        from False have n: "take ?n xs = hi # take (run_more cmp False hi (lo # more)) (lo # more)"
          by (simp add: xs)
        from r False xs have sr: "sorted_run = take ?n xs" and rest: "rest = drop ?n xs"
          by (simp_all add: count_and_make_run_def Let_def)
        from ascending_run [OF c hi t] n sr have "ascending cmp sorted_run" by simp
        then show ?thesis unfolding sr rest by simp
      qed
    qed
  qed
  then show "ascending cmp sorted_run"
    and "\<forall>a\<in>A. filter (\<lambda>b. sort_compare cmp a b = 0) (sorted_run @ rest)
               = filter (\<lambda>b. sort_compare cmp a b = 0) xs"
    by simp_all
qed

lemma count_and_make_run_mset:
  assumes r: "count_and_make_run cmp xs = (sorted_run, rest)"
  shows "mset sorted_run + mset rest = mset xs"
proof -
  have parts: "mset (rev (take n xs)) + mset (drop n xs) = mset xs"
       "mset (take n xs) + mset (drop n xs) = mset xs" for n
    by (metis append_take_drop_id mset_append mset_rev)+
  show ?thesis
  proof (cases "\<exists>hi lo more. xs = hi # lo # more")
    case True
    then obtain hi lo more where xs: "xs = hi # lo # more" by blast
    define n where "n = 2 + run_more cmp (sort_compare cmp lo hi < 0) lo more"
    from r have "sorted_run = (if sort_compare cmp lo hi < 0 then rev (take n xs) else take n xs)"
      and "rest = drop n xs"
      unfolding xs n_def by (auto simp add: count_and_make_run_def Let_def)
    with parts [of n] show ?thesis by (simp split: if_splits)
  next
    case False
    with r have "sorted_run = xs" "rest = []"
      by (auto simp: count_and_make_run_def split: list.splits)
    then show ?thesis by simp
  qed
qed

lemma conforming_run_insertion_sort: "conforming (run_insertion_sort :: 'a array_sort)"
  unfolding conforming_def ties_kept_def
proof (intro allI conjI impI)
  fix cmp :: "'a comparator" and xs
  obtain sorted_run rest where r: "count_and_make_run cmp xs = (sorted_run, rest)"
    by (cases "count_and_make_run cmp xs")
  then have s: "run_insertion_sort cmp xs = fold (binary_insert cmp) rest sorted_run"
    by (simp add: run_insertion_sort_def)
  from count_and_make_run_mset [OF r] have m: "mset sorted_run + mset rest = mset xs" .
  then show "mset (run_insertion_sort cmp xs) = mset xs"
    by (simp add: s mset_fold_binary_insert)
  assume c: "consistent_on cmp (set xs)"
  from m have "set sorted_run \<union> set rest = set xs"
    by (metis set_mset_mset set_mset_union)
  then have sub: "set rest \<subseteq> set xs" "set sorted_run \<subseteq> set xs" by auto
  from count_and_make_run_props [OF c _ r]
  have asc: "ascending cmp sorted_run"
    and ties: "\<forall>a\<in>set xs. filter (\<lambda>b. sort_compare cmp a b = 0) (sorted_run @ rest)
               = filter (\<lambda>b. sort_compare cmp a b = 0) xs"
    by simp_all
  from fold_binary_insert_props [OF c sub asc] ties
  show "ascending cmp (run_insertion_sort cmp xs)"
    and "\<forall>a\<in>set xs. filter (\<lambda>b. sort_compare cmp a b = 0) (run_insertion_sort cmp xs)
               = filter (\<lambda>b. sort_compare cmp a b = 0) xs"
    by (simp_all add: s)
qed

subsection \<open>The chronological sorter on dates it cannot read\<close>

text \<open>On every conforming host sort the record with the unreadable date stays in front of the
  record dated before the epoch.\<close>

lemma date_sort_unparsable_any_host:
  assumes "conforming srt"
  shows "DateSortStrategy srt sample_parse [joined_soon, joined_1969] ''joined'' ''asc''
           = [joined_soon, joined_1969]"
proof -
  let ?cmp = "date_compare sample_parse ''joined'' ''asc''"
  let ?xs = "[joined_soon, joined_1969]"
  have ties: "sort_compare ?cmp a b = 0" if "a \<in> set ?xs" "b \<in> set ?xs" for a b
  proof -
    have "sort_compare ?cmp joined_soon joined_soon = 0" "sort_compare ?cmp joined_soon joined_1969 = 0"
      "sort_compare ?cmp joined_1969 joined_soon = 0" "sort_compare ?cmp joined_1969 joined_1969 = 0"
      by code_simp+
    with that show ?thesis by auto
  qed
  have c: "consistent_on ?cmp (set ?xs)"
    by (rule consistent_onI) (simp_all only: ties)
  let ?ys = "srt ?cmp ?xs"
  from assms c have m: "mset ?ys = mset ?xs" and t: "ties_kept ?cmp ?xs ?ys"
    unfolding conforming_def by blast+
  from m have s: "set ?ys = set ?xs" by (metis set_mset_mset)
  from t have "filter (\<lambda>b. sort_compare ?cmp joined_soon b = 0) ?ys
             = filter (\<lambda>b. sort_compare ?cmp joined_soon b = 0) ?xs"
    by (simp add: ties_kept_def)
  moreover have "filter (\<lambda>b. sort_compare ?cmp joined_soon b = 0) ?ys = ?ys"
    using ties s by (intro filter_True) auto
  moreover have "filter (\<lambda>b. sort_compare ?cmp joined_soon b = 0) ?xs = ?xs"
    using ties by (intro filter_True) auto
  ultimately show ?thesis by (simp add: DateSortStrategy_def)
qed

lemma date_compare_inconsistent:
  "\<not> consistent_on (date_compare sample_parse ''joined'' ''asc'') (set seven_dated)"
proof
  assume c: "consistent_on (date_compare sample_parse ''joined'' ''asc'') (set seven_dated)"
  have m: "dated 6 ''1970-01-04'' \<in> set seven_dated" "dated 3 ''soon'' \<in> set seven_dated"
    "dated 4 ''1970-01-06'' \<in> set seven_dated"
    by (simp_all add: seven_dated_def)
  have "sort_compare (date_compare sample_parse ''joined'' ''asc'') (dated 6 ''1970-01-04'') (dated 3 ''soon'') = 0"
    "sort_compare (date_compare sample_parse ''joined'' ''asc'') (dated 3 ''soon'') (dated 4 ''1970-01-06'') = 0"
    "sort_compare (date_compare sample_parse ''joined'' ''asc'') (dated 6 ''1970-01-04'') (dated 4 ''1970-01-06'') < 0"
    by code_simp+
  with cons_tie_trans [OF c m] show False by simp
qed

text \<open>
  C9. The numeric and alphabetic sorters are stable, and so is the chronological one on
  dates it can read (\<open>sorters_stable\<close>). With a date it cannot read the comparator
  returns \<open>NaN\<close> against every record, so that record ties with two records that do not tie
  with each other, the comparator is not consistent and the language leaves the order to
  the engine. On the seven records below, records 6 and 7 have the same date and come in
  that order; the run and binary insertion sort, ascending, returns record 7 before
  record 6.
\<close>

theorem C9_date_sorter_reorders_equal_dates:
  "date_key sample_parse ''joined'' (dated 6 ''1970-01-04'')
     = date_key sample_parse ''joined'' (dated 7 ''1970-01-04'')
   \<and> filter (\<lambda>r. date_key sample_parse ''joined'' r = Num 259200000) seven_dated
       = [dated 6 ''1970-01-04'', dated 7 ''1970-01-04'']
   \<and> filter (\<lambda>r. date_key sample_parse ''joined'' r = Num 259200000)
        (DateSortStrategy run_insertion_sort sample_parse seven_dated ''joined'' ''asc'')
       = [dated 7 ''1970-01-04'', dated 6 ''1970-01-04'']
   \<and> DateSortStrategy run_insertion_sort sample_parse seven_dated ''joined'' ''asc''
       = [dated 2 ''1970-01-02'', dated 1 ''1970-01-03'', dated 3 ''soon'', dated 7 ''1970-01-04'',
          dated 4 ''1970-01-06'', dated 5 ''soon'', dated 6 ''1970-01-04'']
   \<and> sort_compare (date_compare sample_parse ''joined'' ''asc'') (dated 3 ''soon'') (dated 4 ''1970-01-06'') = 0
   \<and> sort_compare (date_compare sample_parse ''joined'' ''asc'') (dated 3 ''soon'') (dated 6 ''1970-01-04'') = 0
   \<and> sort_compare (date_compare sample_parse ''joined'' ''asc'') (dated 6 ''1970-01-04'') (dated 4 ''1970-01-06'') < 0"
  by code_simp

end
